theory Spec2Isabelle
  imports Complex_Main "HOL-Library.Word"
begin

section \<open>Regular expressions as the bot uses them\<close>

text \<open>
  The bot recognises links with one compiled regular expression and Python's
  \<^verbatim>\<open>search\<close>. The expression is kept as a syntax tree; its meaning is the one of a
  backtracking matcher: \<open>ends r s\<close> lists, in the order in which the matcher tries
  them, what is left of \<open>s\<close> after each way of matching \<open>r\<close> at the start of \<open>s\<close>.
  Alternatives are tried from left to right, \<open>?\<close> and \<open>+\<close> are greedy, and an iteration
  of \<open>+\<close> that consumed nothing is not repeated. A character class is a list of
  ranges of code points. Strings are lists of 8-bit characters: a character beyond
  ASCII is several of them, none of which the pattern mentions.
\<close>

datatype regex =
    Lit string
  | In "(char \<times> char) list"
  | Seq regex regex
  | Alt regex regex
  | Opt regex
  | Plus regex

fun in_ranges :: "(char \<times> char) list \<Rightarrow> char \<Rightarrow> bool" where
  "in_ranges [] c = False"
| "in_ranges ((lo, hi) # rs) c =
     (((of_char lo :: nat) \<le> of_char c \<and> (of_char c :: nat) \<le> of_char hi) \<or> in_ranges rs c)"

fun ends :: "regex \<Rightarrow> string \<Rightarrow> string list" where
  "ends (Lit cs) s = (if take (length cs) s = cs then [drop (length cs) s] else [])"
| "ends (In rs) s = (case s of [] \<Rightarrow> [] | c # s' \<Rightarrow> if in_ranges rs c then [s'] else [])"
| "ends (Seq r1 r2) s = concat (map (ends r2) (ends r1 s))"
| "ends (Alt r1 r2) s = ends r1 s @ ends r2 s"
| "ends (Opt r) s = ends r s @ [s]"
| "ends (Plus r) s =
     concat (map (\<lambda>s'. (if length s' < length s then ends (Plus r) s' else []) @ [s'])
                 (ends r s))"

text \<open>
  \<^verbatim>\<open>pattern.match\<close> at the start of \<open>s\<close>, then \<^verbatim>\<open>group(0)\<close>: the text consumed by the
  first successful way of matching.
\<close>

definition match_at :: "regex \<Rightarrow> string \<Rightarrow> string option" where
  "match_at r s =
     (case ends r s of [] \<Rightarrow> None | rest # _ \<Rightarrow> Some (take (length s - length rest) s))"

text \<open>
  \<^verbatim>\<open>pattern.search(s)\<close>, then \<^verbatim>\<open>group(0)\<close>: the start positions are tried from left to
  right, the position after the last character included.
\<close>

fun search :: "regex \<Rightarrow> string \<Rightarrow> string option" where
  "search r [] = match_at r []"
| "search r (c # cs) =
     (case match_at r (c # cs) of Some m \<Rightarrow> Some m | None \<Rightarrow> search r cs)"

text \<open>
  \<^verbatim>\<open>SPOTIFY_URL_PATTERN\<close> (lines 27 to 29):
  \<^verbatim>\<open>https?://open\.spotify\.com/(track|album|playlist)/[a-zA-Z0-9]+(\?si=[a-zA-Z0-9]+)?(&nd=1)?\<close>
\<close>

definition alnum :: regex where
  "alnum = In [(CHR ''a'', CHR ''z''), (CHR ''A'', CHR ''Z''), (CHR ''0'', CHR ''9'')]"

definition SPOTIFY_URL_PATTERN :: regex where
  "SPOTIFY_URL_PATTERN =
     Seq (Lit ''http'') (Seq (Opt (Lit ''s'')) (Seq (Lit ''://open.spotify.com/'')
     (Seq (Alt (Lit ''track'') (Alt (Lit ''album'') (Lit ''playlist''))) (Seq (Lit ''/'')
     (Seq (Plus alnum)
     (Seq (Opt (Seq (Lit ''?si='') (Plus alnum))) (Opt (Lit ''&nd=1''))))))))"

subsection \<open>The URL grammar, as the specification words it\<close>

text \<open>
  The language of an expression, without any matching order, and the grammar of the
  specification written out: a scheme, the host, one of three path prefixes, a
  non-empty alphanumeric identifier, an optional share parameter and an optional
  \<^verbatim>\<open>&nd=1\<close>. \<open>lfirst r\<close> says that the way of matching \<open>r\<close> that the matcher tries first
  is one that consumes the most.
\<close>

fun lang :: "regex \<Rightarrow> string set" where
  "lang (Lit cs) = {cs}"
| "lang (In rs) = {[c] | c. in_ranges rs c}"
| "lang (Seq r1 r2) = {x @ y | x y. x \<in> lang r1 \<and> y \<in> lang r2}"
| "lang (Alt r1 r2) = lang r1 \<union> lang r2"
| "lang (Opt r) = insert [] (lang r)"
| "lang (Plus r) = {concat ws | ws. ws \<noteq> [] \<and> set ws \<subseteq> lang r}"

definition alphanumeric :: "char \<Rightarrow> bool" where
  "alphanumeric c \<longleftrightarrow>
     c \<in> set ''abcdefghijklmnopqrstuvwxyzABCDEFGHIJKLMNOPQRSTUVWXYZ0123456789''"

definition url_grammar :: "string \<Rightarrow> bool" where
  "url_grammar u \<longleftrightarrow>
     (\<exists>scheme kind ident share nd.
        u = scheme @ ''://open.spotify.com/'' @ kind @ ''/'' @ ident @ share @ nd \<and>
        (scheme = ''http'' \<or> scheme = ''https'') \<and>
        (kind = ''track'' \<or> kind = ''album'' \<or> kind = ''playlist'') \<and>
        ident \<noteq> [] \<and> list_all alphanumeric ident \<and>
        (share = [] \<or> (\<exists>tok. share = ''?si='' @ tok \<and> tok \<noteq> [] \<and> list_all alphanumeric tok)) \<and>
        (nd = [] \<or> nd = ''&nd=1''))"

definition lfirst :: "regex \<Rightarrow> bool" where
  "lfirst r \<longleftrightarrow> (\<forall>s. \<forall>x\<in>set (ends r s). length (hd (ends r s)) \<le> length x)"

definition cls_headed :: "(char \<times> char) list \<Rightarrow> string \<Rightarrow> bool" where
  "cls_headed rs y = (case y of [] \<Rightarrow> False | c # _ \<Rightarrow> in_ranges rs c)"

section \<open>Values, exceptions and effects\<close>

text \<open>
  A parsed JSON body is a Python value: \<open>JNull\<close> is \<^verbatim>\<open>None\<close>, an object is the list
  of the items of its \<^verbatim>\<open>dict\<close>. A number is kept by its value. \<open>truthy\<close> is Python's
  truth test, \<open>get_field\<close> is \<^verbatim>\<open>dict.get(key)\<close>, which gives \<^verbatim>\<open>None\<close> for a missing key.
\<close>

datatype jvalue =
    JNull
  | JBool bool
  | JNum rat
  | JStr string
  | JArr "jvalue list"
  | JObj "(string \<times> jvalue) list"

fun truthy :: "jvalue \<Rightarrow> bool" where
  "truthy JNull = False"
| "truthy (JBool b) = b"
| "truthy (JNum n) = (n \<noteq> 0)"
| "truthy (JStr s) = (s \<noteq> [])"
| "truthy (JArr xs) = (xs \<noteq> [])"
| "truthy (JObj kvs) = (kvs \<noteq> [])"

definition get_field :: "(string \<times> jvalue) list \<Rightarrow> string \<Rightarrow> jvalue" where
  "get_field kvs k = (case map_of kvs k of None \<Rightarrow> JNull | Some v \<Rightarrow> v)"

text \<open>
  An exception is known by the most specific class that the handlers of
  \<^verbatim>\<open>call_download_api\<close> tell apart: \<^verbatim>\<open>requests.exceptions.Timeout\<close>, any other
  \<^verbatim>\<open>requests.RequestException\<close> (the \<^verbatim>\<open>HTTPError\<close> of \<^verbatim>\<open>raise_for_status\<close> is one), and
  any other \<^verbatim>\<open>Exception\<close>. Exceptions outside \<^verbatim>\<open>Exception\<close> (task cancellation,
  interpreter exit) are not modelled.
\<close>

datatype exn = Timeout | RequestException | OtherException

type_synonym bytes = "8 word list"

text \<open>
  What the code reads of an HTTP response: the status, what \<^verbatim>\<open>.json()\<close> does and what
  reading the body does (either may raise). \<open>audio_file\<close> is the \<^verbatim>\<open>BytesIO\<close> buffer with
  the \<^verbatim>\<open>name\<close> attribute the code gives it.
\<close>

record response =
  status_code :: nat
  json :: "exn + jvalue"
  content :: "exn + bytes"

record audio_file =
  data :: bytes
  name :: string
  position :: nat

text \<open>
  An exception object as the handlers see it: its class and its \<^verbatim>\<open>response\<close> attribute,
  \<open>None\<close> when it has none. The \<^verbatim>\<open>HTTPError\<close> of \<^verbatim>\<open>raise_for_status\<close> carries the response
  it was called on; an exception of a request carries what the outside world gives it;
  the others carry none.
\<close>

datatype raised = Raised exn "response option"

text \<open>
  The texts the bot sends, and the lines it logs, by name. \<open>InvalidUrlHelp\<close> is
  "That doesn't look like a valid Spotify track URL. Please send a link that starts with
  https://open.spotify.com/track/...", \<open>StatusConnecting\<close> the first status message,
  \<open>StatusSuccess\<close> "Download successful! Sending your audio file now.", \<open>UploadFailed\<close>
  "Error: I successfully downloaded the file but failed to upload it to Telegram. ..."
  and \<open>DownloadFailed\<close> "Download Failed. The external API could not process the
  request or I failed to connect. ...".
\<close>

datatype reply = InvalidUrlHelp | StatusConnecting | StatusSuccess | UploadFailed | DownloadFailed

datatype logline =
    Attempting string
  | Step1Failed
  | MissingUrlOrPayload
  | Step1Success
  | FileSize nat
  | TooLarge
  | Downloaded string
  | TimedOut
  | ApiCallError
  | ResponseCode nat
  | ResponseBody
  | Unexpected
  | SendFailed

text \<open>
  Everything the code does to the outside is an event of a trace: a log line, the
  Phase 1 request with its \<^verbatim>\<open>urls\<close> parameter and timeout, the Phase 2 request with the
  intermediate URL, the payload token and its timeout, the three chat operations (the
  audio with its file name and write timeout, the edit with the id of the message it
  edits), and closing the buffer. A request or chat operation is recorded when it is
  called, whether it then succeeds or raises.
\<close>

datatype event =
    Info logline
  | Error logline
  | HttpPost string nat
  | HttpGet jvalue jvalue nat
  | ReplyText reply
  | ReplyAudio audio_file string nat
  | EditMessageText nat reply
  | Close

fun is_http_get :: "event \<Rightarrow> bool" where
  "is_http_get (HttpGet u p t) = True"
| "is_http_get ev = False"

fun is_reply_audio :: "event \<Rightarrow> bool" where
  "is_reply_audio (ReplyAudio a f t) = True"
| "is_reply_audio ev = False"

text \<open>
  The outside world: what each request and each chat operation answers, as a function
  of its arguments. \<open>reply_text\<close> returns the id of the message it sent.
\<close>

record env =
  requests_post :: "string \<Rightarrow> raised + response"
  requests_get :: "jvalue \<Rightarrow> jvalue \<Rightarrow> raised + response"
  reply_text :: "reply \<Rightarrow> exn + nat"
  reply_audio :: "audio_file \<Rightarrow> string \<Rightarrow> exn + unit"
  edit_message_text :: "nat \<Rightarrow> reply \<Rightarrow> exn + unit"

text \<open>
  A computation yields its trace and either the exception it raised or its result.
  \<open>try_except\<close> runs the handler on an exception, \<open>try_finally\<close> runs the final block
  on every outcome and keeps the outcome unless the final block raises itself.
\<close>

type_synonym 'a io = "event list \<times> (raised + 'a)"

definition ret :: "'a \<Rightarrow> 'a io" where
  "ret x = ([], Inr x)"

definition throw :: "raised \<Rightarrow> 'a io" where
  "throw e = ([], Inl e)"

definition lift :: "exn + 'a \<Rightarrow> 'a io" where
  "lift r = ([], case r of Inl e \<Rightarrow> Inl (Raised e None) | Inr x \<Rightarrow> Inr x)"

definition perform :: "raised + 'a \<Rightarrow> 'a io" where
  "perform r = ([], r)"

definition emit :: "event \<Rightarrow> unit io" where
  "emit ev = ([ev], Inr ())"

definition bind :: "'a io \<Rightarrow> ('a \<Rightarrow> 'b io) \<Rightarrow> 'b io" where
  "bind m f =
     (case m of
        (t, Inl e) \<Rightarrow> (t, Inl e)
      | (t, Inr x) \<Rightarrow> (case f x of (t', r) \<Rightarrow> (t @ t', r)))"

definition try_except :: "'a io \<Rightarrow> (raised \<Rightarrow> 'a io) \<Rightarrow> 'a io" where
  "try_except m h =
     (case m of
        (t, Inl e) \<Rightarrow> (case h e of (t', r) \<Rightarrow> (t @ t', r))
      | (t, Inr x) \<Rightarrow> (t, Inr x))"

definition try_finally :: "'a io \<Rightarrow> unit io \<Rightarrow> 'a io" where
  "try_finally m fin =
     (case m of (t, r) \<Rightarrow>
        (case fin of
           (t', Inl e) \<Rightarrow> (t @ t', Inl e)
         | (t', Inr u) \<Rightarrow> (t @ t', r)))"

section \<open>The conversion client\<close>

text \<open>
  \<^verbatim>\<open>str.split(sep)\<close> for a separator of one character, and Python's indexing of a
  list, which raises \<^verbatim>\<open>IndexError\<close> out of range and counts a negative index from the
  end.
\<close>

fun str_split :: "char \<Rightarrow> string \<Rightarrow> string list" where
  "str_split sep [] = [[]]"
| "str_split sep (c # cs) =
     (if c = sep then [] # str_split sep cs
      else (case str_split sep cs of [] \<Rightarrow> [[c]] | w # ws \<Rightarrow> (c # w) # ws))"

definition index :: "'a list \<Rightarrow> int \<Rightarrow> exn + 'a" where
  "index xs i =
     (if - int (length xs) \<le> i \<and> i < int (length xs)
      then Inr (xs ! nat (i mod int (length xs)))
      else Inl OtherException)"

text \<open>
  Lines 72 to 76: \<^verbatim>\<open>track_id = spotify_url.split('/')[-1].split('?')[0]\<close> and
  \<^verbatim>\<open>track_name = f"Track_{track_id}"\<close> in a \<^verbatim>\<open>try\<close> whose handler sets
  \<^verbatim>\<open>track_name = "Downloaded_Track"\<close>.
\<close>

definition derive_track_name :: "string \<Rightarrow> string" where
  "derive_track_name spotify_url =
     (case (case index (str_split CHR ''/'' spotify_url) (- 1) of
              Inl e \<Rightarrow> Inl e
            | Inr segment \<Rightarrow> index (str_split CHR ''?'' segment) 0) of
        Inl e \<Rightarrow> ''Downloaded_Track''
      | Inr track_id \<Rightarrow> ''Track_'' @ track_id)"

text \<open>
  The Phase 1 request is made without \<^verbatim>\<open>stream\<close>: the body is read before
  \<^verbatim>\<open>requests.post\<close> returns, so a body that cannot be read is an exception of the
  request itself. The Phase 2 request is made with \<^verbatim>\<open>stream=True\<close>: its body is read
  when \<^verbatim>\<open>.content\<close> or \<^verbatim>\<open>.text\<close> is first used. \<^verbatim>\<open>.text\<close> decodes the body and replaces
  what it cannot decode, so it raises only when reading does.
\<close>

definition http_post :: "env \<Rightarrow> string \<Rightarrow> response io" where
  "http_post env spotify_url =
     bind (emit (HttpPost spotify_url 30)) (\<lambda>_.
     bind (perform (requests_post env spotify_url)) (\<lambda>api_response.
     bind (lift (content api_response)) (\<lambda>_. ret api_response)))"

definition response_text :: "response \<Rightarrow> unit io" where
  "response_text r = bind (lift (content r)) (\<lambda>_. ret ())"

definition http_get :: "env \<Rightarrow> jvalue \<Rightarrow> jvalue \<Rightarrow> response io" where
  "http_get env intermediate_url intermediate_payload =
     bind (emit (HttpGet intermediate_url intermediate_payload 60))
          (\<lambda>_. perform (requests_get env intermediate_url intermediate_payload))"

definition raise_for_status :: "response \<Rightarrow> unit io" where
  "raise_for_status r =
     (if 400 \<le> status_code r \<and> status_code r < 600
      then throw (Raised RequestException (Some r)) else ret ())"

text \<open>\<^verbatim>\<open>response_json.get(key)\<close>: only a \<^verbatim>\<open>dict\<close> has the method.\<close>

definition dict_get :: "jvalue \<Rightarrow> string \<Rightarrow> jvalue io" where
  "dict_get j k =
     (case j of JObj kvs \<Rightarrow> ret (get_field kvs k) | _ \<Rightarrow> throw (Raised OtherException None))"

text \<open>
  Line 65, the test \<^verbatim>\<open>response_json.get('error') is True or not response_json.get('url')\<close>:
  the second lookup happens only when the first does not decide.
\<close>

definition step_1_rejected :: "jvalue \<Rightarrow> bool io" where
  "step_1_rejected response_json =
     bind (dict_get response_json ''error'') (\<lambda>error.
       if error = JBool True then ret True
       else bind (dict_get response_json ''url'') (\<lambda>url. ret (\<not> truthy url)))"

text \<open>
  Lines 54 to 80, Step 1: the request, the status check, the parsed body and its two
  tests. The result is \<open>None\<close> where the code returns \<^verbatim>\<open>None, None\<close>, and otherwise the
  intermediate URL, the payload token and the track name.
\<close>

definition step_1 :: "env \<Rightarrow> string \<Rightarrow> (jvalue \<times> jvalue \<times> string) option io" where
  "step_1 env spotify_url =
     bind (http_post env spotify_url) (\<lambda>api_response.
     bind (raise_for_status api_response) (\<lambda>_.
     bind (lift (json api_response)) (\<lambda>response_json.
     bind (step_1_rejected response_json) (\<lambda>rejected.
       if rejected then
         bind (dict_get response_json ''message'') (\<lambda>_.
         bind (emit (Error Step1Failed)) (\<lambda>_. ret None))
       else
         bind (dict_get response_json ''url'') (\<lambda>intermediate_url.
         bind (dict_get response_json ''payload'') (\<lambda>intermediate_payload.
           let track_name = derive_track_name spotify_url in
           if \<not> truthy intermediate_url \<or> \<not> truthy intermediate_payload then
             bind (emit (Error MissingUrlOrPayload)) (\<lambda>_. ret None)
           else ret (Some (intermediate_url, intermediate_payload, track_name))))))))"

text \<open>Lines 90 to 98, Step 2: the request, the status check and the body.\<close>

definition step_2 :: "env \<Rightarrow> jvalue \<Rightarrow> jvalue \<Rightarrow> bytes io" where
  "step_2 env intermediate_url intermediate_payload =
     bind (http_get env intermediate_url intermediate_payload) (\<lambda>file_response.
     bind (raise_for_status file_response) (\<lambda>_.
     lift (content file_response)))"

text \<open>
  Lines 115 to 126, the three handlers. Each logs and returns \<^verbatim>\<open>None, None\<close>; the one
  for \<^verbatim>\<open>RequestException\<close> also logs the status and the text of the response the
  exception carries, when it carries one.
\<close>

definition except_clauses :: "raised \<Rightarrow> (audio_file option \<times> string option) io" where
  "except_clauses e =
     (case e of
        Raised Timeout resp \<Rightarrow> bind (emit (Error TimedOut)) (\<lambda>_. ret (None, None))
      | Raised RequestException resp \<Rightarrow>
          bind (emit (Error ApiCallError)) (\<lambda>_.
          bind (case resp of
                  None \<Rightarrow> ret ()
                | Some r \<Rightarrow>
                    bind (emit (Error (ResponseCode (status_code r)))) (\<lambda>_.
                    bind (response_text r) (\<lambda>_. emit (Error ResponseBody)))) (\<lambda>_.
          ret (None, None)))
      | Raised OtherException resp \<Rightarrow> bind (emit (Error Unexpected)) (\<lambda>_. ret (None, None)))"

text \<open>
  Lines 33 to 126. \<^verbatim>\<open>file_size_mb = len(file_content) / (1024 * 1024)\<close> is a float
  division by a power of two, which is exact for every length below \<open>2 ^ 53\<close> and
  monotone beyond, so that its comparison with 50 is the comparison of the exact
  quotients; the quotient is a rational here.
\<close>

definition call_download_api :: "env \<Rightarrow> string \<Rightarrow> (audio_file option \<times> string option) io" where
  "call_download_api env spotify_url =
     bind (emit (Info (Attempting spotify_url))) (\<lambda>_.
     try_except
       (bind (step_1 env spotify_url) (\<lambda>step1.
          case step1 of
            None \<Rightarrow> ret (None, None)
          | Some (intermediate_url, intermediate_payload, track_name) \<Rightarrow>
              bind (emit (Info Step1Success)) (\<lambda>_.
              bind (step_2 env intermediate_url intermediate_payload) (\<lambda>file_content.
                let file_size_mb = (of_nat (length file_content) :: rat) / (1024 * 1024) in
                bind (emit (Info (FileSize (length file_content)))) (\<lambda>_.
                  if file_size_mb > 50 then
                    bind (emit (Error TooLarge)) (\<lambda>_. ret (None, None))
                  else
                    let audio_file =
                      \<lparr>data = file_content, name = track_name @ ''.mp3'', position = 0\<rparr> in
                    bind (emit (Info (Downloaded (name audio_file)))) (\<lambda>_.
                      ret (Some audio_file, Some track_name)))))))
       except_clauses)"

section \<open>The message handler\<close>

definition tg_reply_text :: "env \<Rightarrow> reply \<Rightarrow> nat io" where
  "tg_reply_text env r = bind (emit (ReplyText r)) (\<lambda>_. lift (reply_text env r))"

definition tg_reply_audio :: "env \<Rightarrow> audio_file \<Rightarrow> string \<Rightarrow> unit io" where
  "tg_reply_audio env audio filename =
     bind (emit (ReplyAudio audio filename 120)) (\<lambda>_. lift (reply_audio env audio filename))"

definition tg_edit_message_text :: "env \<Rightarrow> nat \<Rightarrow> reply \<Rightarrow> unit io" where
  "tg_edit_message_text env message_id r =
     bind (emit (EditMessageText message_id r)) (\<lambda>_. lift (edit_message_text env message_id r))"

text \<open>\<^verbatim>\<open>f"{track_name}.mp3"\<close> for a \<^verbatim>\<open>track_name\<close> that is a string or \<^verbatim>\<open>None\<close>.\<close>

definition mp3_filename :: "string option \<Rightarrow> string" where
  "mp3_filename track_name =
     (case track_name of None \<Rightarrow> ''None'' | Some n \<Rightarrow> n) @ ''.mp3''"

text \<open>
  Lines 164 to 187, the delivery step: the \<^verbatim>\<open>try\<close> with the send and the edit of the
  status message, its handler for \<^verbatim>\<open>Exception\<close> and its \<^verbatim>\<open>finally\<close>.
\<close>

definition delivery :: "env \<Rightarrow> nat \<Rightarrow> audio_file \<Rightarrow> string option \<Rightarrow> unit io" where
  "delivery env status_message audio track_name =
     try_finally
       (try_except
          (bind (tg_reply_audio env audio (mp3_filename track_name)) (\<lambda>_.
           tg_edit_message_text env status_message StatusSuccess))
          (\<lambda>e. bind (emit (Error SendFailed)) (\<lambda>_.
                bind (tg_reply_text env UploadFailed) (\<lambda>_. ret ()))))
       (emit Close)"

text \<open>
  Lines 154 to 198. \<^verbatim>\<open>if audio_file:\<close> tests a \<^verbatim>\<open>BytesIO\<close> or \<^verbatim>\<open>None\<close>; a \<^verbatim>\<open>BytesIO\<close>
  has no length and no truth method, so it is true whatever it holds.
\<close>

definition process_spotify_link :: "env \<Rightarrow> string \<Rightarrow> unit io" where
  "process_spotify_link env url =
     bind (tg_reply_text env StatusConnecting) (\<lambda>status_message.
     bind (call_download_api env url) (\<lambda>(audio_file, track_name).
       case audio_file of
         Some audio \<Rightarrow> delivery env status_message audio track_name
       | None \<Rightarrow> tg_edit_message_text env status_message DownloadFailed))"

text \<open>
  Lines 138 to 152. The text of a message is a string or \<^verbatim>\<open>None\<close>; \<^verbatim>\<open>if not user_text\<close>
  holds for \<^verbatim>\<open>None\<close> and for the empty string. A match object is always true.
\<close>

definition handle_message :: "env \<Rightarrow> string option \<Rightarrow> unit io" where
  "handle_message env user_text =
     (case user_text of
        None \<Rightarrow> ret ()
      | Some txt \<Rightarrow>
          if txt = [] then ret ()
          else (case search SPOTIFY_URL_PATTERN txt of
                  Some spotify_url \<Rightarrow> process_spotify_link env spotify_url
                | None \<Rightarrow> bind (tg_reply_text env InvalidUrlHelp) (\<lambda>_. ret ())))"

subsection \<open>Sample environments\<close>

text \<open>
  A conversion service that accepts every link and serves the given body, with a chat
  platform on which every operation succeeds; and variations of it.
\<close>

definition accepting_body :: jvalue where
  "accepting_body =
     JObj [(''error'', JBool False), (''url'', JStr ''https://cdn.example/file''),
           (''payload'', JStr ''token'')]"

definition serving :: "bytes \<Rightarrow> env" where
  "serving body =
     \<lparr>requests_post = (\<lambda>u. Inr \<lparr>status_code = 200, json = Inr accepting_body, content = Inr []\<rparr>),
      requests_get =
        (\<lambda>u p. Inr \<lparr>status_code = 200, json = Inl RequestException, content = Inr body\<rparr>),
      reply_text = (\<lambda>r. Inr 7),
      reply_audio = (\<lambda>a f. Inr ()),
      edit_message_text = (\<lambda>m r. Inr ())\<rparr>"


definition timing_out :: env where
  "timing_out = (serving [1, 2, 3])\<lparr>requests_post := (\<lambda>u. Inl (Raised Timeout None))\<rparr>"

definition upload_failing :: env where
  "upload_failing = (serving [1, 2, 3])\<lparr>reply_audio := (\<lambda>a f. Inl OtherException)\<rparr>"

definition edit_failing :: env where
  "edit_failing = (serving [1, 2, 3])\<lparr>edit_message_text := (\<lambda>m r. Inl OtherException)\<rparr>"

text \<open>
  A service whose Phase 2 answers with status 503 and a body whose transfer breaks off.
\<close>

definition error_body_cut :: env where
  "error_body_cut =
     (serving [1, 2, 3])
       \<lparr>requests_get :=
          (\<lambda>u p. Inr \<lparr>status_code = 503, json = Inl RequestException,
                          content = Inl RequestException\<rparr>)\<rparr>"


section \<open>The matcher and the language of an expression\<close>

text \<open>
  The equation of \<open>+\<close> mentions itself under a test, so it is applied by hand.
\<close>

declare ends.simps(6) [simp del]
declare lang.simps(6) [simp del]

lemma lang_PlusI: "ws \<noteq> [] \<Longrightarrow> set ws \<subseteq> lang r \<Longrightarrow> concat ws \<in> lang (Plus r)"
  unfolding lang.simps(6) by (rule CollectI, rule exI[of _ ws]) simp

lemma lang_PlusD: "m \<in> lang (Plus r) \<Longrightarrow> \<exists>ws. m = concat ws \<and> ws \<noteq> [] \<and> set ws \<subseteq> lang r"
  unfolding lang.simps(6) by (erule CollectE)

lemma in_concat_mapI: "x \<in> set xs \<Longrightarrow> y \<in> set (f x) \<Longrightarrow> y \<in> set (concat (map f xs))"
  by auto

lemma in_concat_mapD: "y \<in> set (concat (map f xs)) \<Longrightarrow> \<exists>x\<in>set xs. y \<in> set (f x)"
  by auto

lemma ends_PlusI:
  assumes "mid \<in> set (ends r s)"
    and "rest = mid \<or> (length mid < length s \<and> rest \<in> set (ends (Plus r) mid))"
  shows "rest \<in> set (ends (Plus r) s)"
proof -
  have "rest \<in> set ((if length mid < length s then ends (Plus r) mid else []) @ [mid])"
    using assms(2) by auto
  with assms(1) show ?thesis
    unfolding ends.simps(6)[of r s] by (rule in_concat_mapI)
qed

lemma ends_PlusD:
  assumes "rest \<in> set (ends (Plus r) s)"
  shows "\<exists>mid\<in>set (ends r s).
           rest = mid \<or> (length mid < length s \<and> rest \<in> set (ends (Plus r) mid))"
proof -
  from in_concat_mapD[OF assms[unfolded ends.simps(6)[of r s]]]
  obtain mid where mid: "mid \<in> set (ends r s)"
    and r: "rest \<in> set ((if length mid < length s then ends (Plus r) mid else []) @ [mid])"
    by blast
  from r have "rest = mid \<or> (length mid < length s \<and> rest \<in> set (ends (Plus r) mid))"
    by (cases "length mid < length s") auto
  with mid show ?thesis by (rule_tac bexI[of _ mid])
qed

lemma ends_sound: "rest \<in> set (ends r s) \<Longrightarrow> \<exists>m\<in>lang r. s = m @ rest"
proof (induction r s arbitrary: rest rule: ends.induct)
  case (1 cs s)
  then have "take (length cs) s = cs" "rest = drop (length cs) s"
    by (simp_all split: if_splits)
  then have "s = cs @ rest" by (metis append_take_drop_id)
  then show ?case by simp
next
  case (2 rs s)
  then show ?case by (cases s) (simp_all split: if_splits)
next
  case (3 r1 r2 s)
  from "3.prems" obtain mid where mid: "mid \<in> set (ends r1 s)" "rest \<in> set (ends r2 mid)"
    by auto
  from "3.IH"(1)[OF mid(1)] obtain m1 where m1: "m1 \<in> lang r1" "s = m1 @ mid" by blast
  from "3.IH"(2)[OF mid(1) mid(2)] obtain m2 where m2: "m2 \<in> lang r2" "mid = m2 @ rest" by blast
  have "m1 @ m2 \<in> lang (Seq r1 r2)" using m1(1) m2(1) by auto
  moreover have "s = (m1 @ m2) @ rest" using m1(2) m2(2) by simp
  ultimately show ?case by (rule_tac bexI[of _ "m1 @ m2"])
next
  case (4 r1 r2 s)
  then show ?case by auto
next
  case (5 r s)
  then show ?case by auto
next
  case (6 r s)
  from ends_PlusD[OF "6.prems"] obtain mid where mid: "mid \<in> set (ends r s)"
    and r: "rest = mid \<or> (length mid < length s \<and> rest \<in> set (ends (Plus r) mid))"
    by blast
  from "6.IH"(1)[OF mid] obtain m1 where m1: "m1 \<in> lang r" "s = m1 @ mid" by blast
  show ?case
  proof (cases "rest = mid")
    case True
    have "concat [m1] \<in> lang (Plus r)" using m1(1) by (intro lang_PlusI) simp_all
    then have "m1 \<in> lang (Plus r)" by simp
    then show ?thesis using m1(2) True by (rule_tac bexI[of _ m1]) simp_all
  next
    case False
    with r have lt: "length mid < length s" and r': "rest \<in> set (ends (Plus r) mid)"
      by simp_all
    from "6.IH"(2)[OF mid lt r'] obtain m2 where m2: "m2 \<in> lang (Plus r)" "mid = m2 @ rest"
      by blast
    from lang_PlusD[OF m2(1)] obtain ws
      where ws: "m2 = concat ws" "ws \<noteq> []" "set ws \<subseteq> lang r" by blast
    have "concat (m1 # ws) \<in> lang (Plus r)"
      using ws(3) m1(1) by (intro lang_PlusI) simp_all
    moreover have "s = concat (m1 # ws) @ rest" using m1(2) m2(2) ws(1) by simp
    ultimately show ?thesis by (rule_tac bexI[of _ "concat (m1 # ws)"])
  qed
qed

lemma ends_plus_complete:
  assumes r: "\<And>m rest. m \<in> lang r \<Longrightarrow> rest \<in> set (ends r (m @ rest))"
  shows "ws \<noteq> [] \<Longrightarrow> set ws \<subseteq> lang r \<Longrightarrow> rest \<in> set (ends (Plus r) (concat ws @ rest))"
proof (induction ws)
  case Nil
  then show ?case by simp
next
  case (Cons w ws)
  let ?s = "concat (w # ws) @ rest"
  let ?mid = "concat ws @ rest"
  have "w \<in> lang r" using Cons.prems(2) by simp
  from r[OF this, of ?mid] have mid: "?mid \<in> set (ends r ?s)" by simp
  show ?case
  proof (cases "ws = []")
    case True
    then have "rest = ?mid" by simp
    then show ?thesis by (intro ends_PlusI[OF mid] disjI1)
  next
    case False
    with Cons have ih: "rest \<in> set (ends (Plus r) ?mid)" by simp
    show ?thesis
    proof (cases "w = []")
      case True
      then show ?thesis using ih by simp
    next
      case False
      then have "length ?mid < length ?s" by simp
      with ih show ?thesis by (intro ends_PlusI[OF mid] disjI2 conjI)
    qed
  qed
qed

lemma ends_complete: "m \<in> lang r \<Longrightarrow> rest \<in> set (ends r (m @ rest))"
proof (induction r arbitrary: m rest)
  case (Lit cs)
  then show ?case by simp
next
  case (In rs)
  then show ?case by auto
next
  case (Seq r1 r2)
  from Seq.prems obtain x y where xy: "m = x @ y" "x \<in> lang r1" "y \<in> lang r2" by auto
  have "y @ rest \<in> set (ends r1 (x @ y @ rest))" using Seq.IH(1)[OF xy(2)] .
  moreover have "rest \<in> set (ends r2 (y @ rest))" using Seq.IH(2)[OF xy(3)] .
  ultimately show ?case using xy(1) by auto
next
  case (Alt r1 r2)
  then show ?case by auto
next
  case (Opt r)
  then show ?case by auto
next
  case (Plus r)
  from lang_PlusD[OF Plus.prems] obtain ws
    where ws: "m = concat ws" "ws \<noteq> []" "set ws \<subseteq> lang r" by blast
  show ?case unfolding ws(1) by (rule ends_plus_complete[OF Plus.IH ws(2) ws(3)])
qed

lemma ends_iff: "rest \<in> set (ends r s) \<longleftrightarrow> (\<exists>m\<in>lang r. s = m @ rest)"
  using ends_sound ends_complete by blast

subsection \<open>The class of the pattern is the alphanumeric characters\<close>

lemma alnum_ranges:
  "in_ranges [(CHR ''a'', CHR ''z''), (CHR ''A'', CHR ''Z''), (CHR ''0'', CHR ''9'')] c
     = alphanumeric c"
proof (cases c)
  case (Char x1 x2 x3 x4 x5 x6 x7 x8)
  show ?thesis unfolding Char alphanumeric_def
    by (cases x1; cases x2; cases x3; cases x4; cases x5; cases x6; cases x7; cases x8; simp)
qed

subsection \<open>The first way of matching consumes the most\<close>

lemma ends_Plus_In_Nil: "ends (Plus (In rs)) [] = []"
  by (subst ends.simps(6)) simp

lemma ends_Plus_In_Cons:
  "ends (Plus (In rs)) (c # s) = (if in_ranges rs c then ends (Plus (In rs)) s @ [s] else [])"
  by (subst ends.simps(6)) simp

lemma ends_Plus_In_headed: "ends (Plus (In rs)) s \<noteq> [] \<Longrightarrow> cls_headed rs s"
  by (cases s) (simp_all add: ends_Plus_In_Nil ends_Plus_In_Cons cls_headed_def split: if_splits)

lemma ends_Plus_In_shape:
  "ends (Plus (In rs)) s = [] \<or>
   (length (hd (ends (Plus (In rs)) s)) < length s \<and>
    (\<forall>y\<in>set (tl (ends (Plus (In rs)) s)).
       cls_headed rs y \<and> length (hd (ends (Plus (In rs)) s)) < length y \<and> length y < length s))"
proof (induction s)
  case Nil
  show ?case by (simp add: ends_Plus_In_Nil)
next
  case (Cons c s)
  let ?L = "ends (Plus (In rs)) s"
  show ?case
  proof (cases "in_ranges rs c")
    case False
    then show ?thesis by (simp add: ends_Plus_In_Cons)
  next
    case True
    then have eq: "ends (Plus (In rs)) (c # s) = ?L @ [s]" by (simp add: ends_Plus_In_Cons)
    show ?thesis
    proof (cases "?L = []")
      case True
      then show ?thesis unfolding eq by simp
    next
      case False
      with Cons.IH have ih: "length (hd ?L) < length s"
        "\<forall>y\<in>set (tl ?L). cls_headed rs y \<and> length (hd ?L) < length y \<and> length y < length s"
        by simp_all
      have hs: "cls_headed rs s" using False by (rule ends_Plus_In_headed)
      have hd_eq: "hd (?L @ [s]) = hd ?L" using False by simp
      have tl_eq: "tl (?L @ [s]) = tl ?L @ [s]" using False by simp
      show ?thesis unfolding eq hd_eq tl_eq using ih hs by auto
    qed
  qed
qed

lemma ends_Seq_Lit:
  "ends (Seq (Lit cs) X) s = (if take (length cs) s = cs then ends X (drop (length cs) s) else [])"
  by simp

lemma ends_Lit_headed:
  "cs \<noteq> [] \<Longrightarrow> cls_headed rs y \<Longrightarrow> \<not> in_ranges rs (hd cs) \<Longrightarrow> ends (Lit cs) y = []"
  by (cases y; cases cs) (auto simp: cls_headed_def)

lemma ends_Opt_Lit_headed:
  "cs \<noteq> [] \<Longrightarrow> cls_headed rs y \<Longrightarrow> \<not> in_ranges rs (hd cs) \<Longrightarrow> ends (Opt (Lit cs)) y = [y]"
  using ends_Lit_headed[of cs rs y] by simp

lemma ends_Opt_Lit_cases:
  "ends (Opt (Lit cs)) x = [x] \<or> ends (Opt (Lit cs)) x = [drop (length cs) x, x]"
  by simp

lemma concat_map_singleton:
  "(\<And>y. y \<in> set ys \<Longrightarrow> f y = [y]) \<Longrightarrow> concat (map f ys) = ys"
  by (induction ys) simp_all

lemma lit_excl:
  "a \<noteq> [] \<Longrightarrow> b \<noteq> [] \<Longrightarrow> hd a \<noteq> hd b \<Longrightarrow> take (length a) s = a \<Longrightarrow> take (length b) s \<noteq> b"
  by (cases s; cases a; cases b) auto

lemma lfirst_via:
  assumes "lfirst Y" and "\<And>s. ends Z s = [] \<or> (\<exists>t. ends Z s = ends Y t)"
  shows "lfirst Z"
  unfolding lfirst_def
proof (intro allI ballI)
  fix s x assume x: "x \<in> set (ends Z s)"
  then have "ends Z s \<noteq> []" by auto
  with assms(2)[of s] obtain t where t: "ends Z s = ends Y t" by blast
  with assms(1) x show "length (hd (ends Z s)) \<le> length x" unfolding lfirst_def by simp
qed

lemma lfirst_Seq_Lit: "lfirst X \<Longrightarrow> lfirst (Seq (Lit cs) X)"
proof (rule lfirst_via[of X])
  fix s
  show "ends (Seq (Lit cs) X) s = [] \<or> (\<exists>t. ends (Seq (Lit cs) X) s = ends X t)"
    unfolding ends_Seq_Lit by (cases "take (length cs) s = cs") auto
qed

lemma lfirst_Seq_Opt_Lit:
  assumes "lfirst (Seq (Lit b) X)" "a \<noteq> []" "b \<noteq> []" "hd a \<noteq> hd b"
  shows "lfirst (Seq (Opt (Lit a)) (Seq (Lit b) X))"
proof (rule lfirst_via[OF assms(1)])
  fix s
  let ?Y = "Seq (Lit b) X"
  have eq: "ends (Seq (Opt (Lit a)) ?Y) s =
      (if take (length a) s = a then ends ?Y (drop (length a) s) else []) @ ends ?Y s"
    by (simp del: ends.simps(3) add: ends.simps(3)[of "Opt (Lit a)"])
  show "ends (Seq (Opt (Lit a)) ?Y) s = [] \<or> (\<exists>t. ends (Seq (Opt (Lit a)) ?Y) s = ends ?Y t)"
  proof (cases "take (length a) s = a")
    case True
    from lit_excl[OF assms(2,3,4) True] have "ends ?Y s = []" unfolding ends_Seq_Lit by simp
    with True eq have "ends (Seq (Opt (Lit a)) ?Y) s = ends ?Y (drop (length a) s)" by simp
    then show ?thesis by blast
  next
    case False
    with eq have "ends (Seq (Opt (Lit a)) ?Y) s = ends ?Y s" by simp
    then show ?thesis by blast
  qed
qed

lemma lfirst_Seq_Alt3:
  assumes "lfirst X" "a \<noteq> []" "b \<noteq> []" "c \<noteq> []" "hd a \<noteq> hd b" "hd a \<noteq> hd c" "hd b \<noteq> hd c"
  shows "lfirst (Seq (Alt (Lit a) (Alt (Lit b) (Lit c))) X)"
proof (rule lfirst_via[OF assms(1)])
  fix s
  let ?Z = "Seq (Alt (Lit a) (Alt (Lit b) (Lit c))) X"
  have eq: "ends ?Z s =
      (if take (length a) s = a then ends X (drop (length a) s) else []) @
      (if take (length b) s = b then ends X (drop (length b) s) else []) @
      (if take (length c) s = c then ends X (drop (length c) s) else [])"
    by simp
  consider (a) "take (length a) s = a" | (b) "take (length b) s = b" | (c) "take (length c) s = c"
    | (none) "take (length a) s \<noteq> a" "take (length b) s \<noteq> b" "take (length c) s \<noteq> c"
    by blast
  then show "ends ?Z s = [] \<or> (\<exists>t. ends ?Z s = ends X t)"
  proof cases
    case a
    from lit_excl[OF assms(2,3,5) a] lit_excl[OF assms(2,4,6) a] a eq
    have "ends ?Z s = ends X (drop (length a) s)" by simp
    then show ?thesis by blast
  next
    case b
    from lit_excl[OF assms(3,2) assms(5)[symmetric] b] lit_excl[OF assms(3,4,7) b] b eq
    have "ends ?Z s = ends X (drop (length b) s)" by simp
    then show ?thesis by blast
  next
    case c
    from lit_excl[OF assms(4,2) assms(6)[symmetric] c] lit_excl[OF assms(4,3) assms(7)[symmetric] c] c eq
    have "ends ?Z s = ends X (drop (length c) s)" by simp
    then show ?thesis by blast
  next
    case none
    with eq show ?thesis by simp
  qed
qed

lemma ends_tail_headed:
  assumes "a \<noteq> []" "b \<noteq> []" "\<not> in_ranges rs (hd a)" "\<not> in_ranges rs (hd b)" "cls_headed rs y"
  shows "ends (Seq (Opt (Seq (Lit a) (Plus (In rs)))) (Opt (Lit b))) y = [y]"
proof -
  have 1: "ends (Seq (Lit a) (Plus (In rs))) y = []"
    using ends_Lit_headed[OF assms(1,5,3)] by simp
  have 2: "ends (Lit b) y = []" using ends_Lit_headed[OF assms(2,5,4)] .
  show ?thesis using 1 2 by (simp del: ends.simps(1))
qed

lemma ends_Opt_Lit_facts:
  "ends (Opt (Lit b)) z \<noteq> [] \<and> length (hd (ends (Opt (Lit b)) z)) \<le> length z \<and>
   (\<forall>y\<in>set (ends (Opt (Lit b)) z). length (hd (ends (Opt (Lit b)) z)) \<le> length y)"
  by simp

lemma ends_tail_facts:
  assumes "a \<noteq> []" "b \<noteq> []" "\<not> in_ranges rs (hd a)" "\<not> in_ranges rs (hd b)" "hd a \<noteq> hd b"
  shows "ends (Seq (Opt (Seq (Lit a) (Plus (In rs)))) (Opt (Lit b))) x \<noteq> [] \<and>
         length (hd (ends (Seq (Opt (Seq (Lit a) (Plus (In rs)))) (Opt (Lit b))) x)) \<le> length x \<and>
         (\<forall>y\<in>set (ends (Seq (Opt (Seq (Lit a) (Plus (In rs)))) (Opt (Lit b))) x).
            length (hd (ends (Seq (Opt (Seq (Lit a) (Plus (In rs)))) (Opt (Lit b))) x)) \<le> length y)"
proof -
  let ?T = "Seq (Opt (Seq (Lit a) (Plus (In rs)))) (Opt (Lit b))"
  let ?Z = "ends (Seq (Lit a) (Plus (In rs))) x"
  let ?O = "ends (Opt (Lit b))"
  have "ends ?T x = concat (map ?O (ends (Opt (Seq (Lit a) (Plus (In rs)))) x))"
    by (rule ends.simps(3))
  also have "ends (Opt (Seq (Lit a) (Plus (In rs)))) x = ?Z @ [x]"
    by (rule ends.simps(5))
  finally have eq: "ends ?T x = concat (map ?O ?Z) @ ?O x"
    by (simp del: ends.simps)
  show ?thesis
  proof (cases "?Z = []")
    case True
    have e1: "ends ?T x = ?O x" unfolding eq True by (simp del: ends.simps)
    show ?thesis unfolding e1 by (rule ends_Opt_Lit_facts)
  next
    case False
    then have ta: "take (length a) x = a" and Z: "?Z = ends (Plus (In rs)) (drop (length a) x)"
      unfolding ends_Seq_Lit by (simp_all split: if_splits)
    let ?x' = "drop (length a) x"
    let ?L = "ends (Plus (In rs)) ?x'"
    from False Z have Lne: "?L \<noteq> []" by (simp del: ends.simps)
    with ends_Plus_In_shape[of rs ?x'] have sh: "length (hd ?L) < length ?x'"
      "\<forall>y\<in>set (tl ?L). cls_headed rs y \<and> length (hd ?L) < length y \<and> length y < length ?x'"
      by simp_all
    have tl1: "concat (map ?O (tl ?L)) = tl ?L"
    proof (rule concat_map_singleton)
      fix y assume "y \<in> set (tl ?L)"
      with sh(2) have "cls_headed rs y" by simp
      then show "?O y = [y]" by (rule ends_Opt_Lit_headed[OF assms(2) _ assms(4)])
    qed
    have Ox: "?O x = [x]" using lit_excl[OF assms(1,2,5) ta] by simp
    have L: "?L = hd ?L # tl ?L" using Lne by simp
    have "concat (map ?O ?L) = ?O (hd ?L) @ concat (map ?O (tl ?L))"
      by (subst L) (simp del: ends.simps)
    then have eq2: "ends ?T x = ?O (hd ?L) @ tl ?L @ [x]"
      unfolding eq Z tl1 Ox by (simp del: ends.simps)
    from ends_Opt_Lit_facts[of b "hd ?L"] have O0: "?O (hd ?L) \<noteq> []"
      "length (hd (?O (hd ?L))) \<le> length (hd ?L)"
      "\<forall>y\<in>set (?O (hd ?L)). length (hd (?O (hd ?L))) \<le> length y"
      by blast+
    have hd_eq: "hd (ends ?T x) = hd (?O (hd ?L))" unfolding eq2 by (rule hd_append2[OF O0(1)])
    have lx: "length ?x' \<le> length x" by simp
    have "\<forall>y\<in>set (ends ?T x). length (hd (?O (hd ?L))) \<le> length y"
    proof
      fix y assume "y \<in> set (ends ?T x)"
      then have "y \<in> set (?O (hd ?L)) \<or> y \<in> set (tl ?L) \<or> y = x"
        unfolding eq2 by (auto simp del: ends.simps)
      then show "length (hd (?O (hd ?L))) \<le> length y"
      proof (elim disjE)
        assume "y \<in> set (?O (hd ?L))"
        with O0(3) show ?thesis by blast
      next
        assume "y \<in> set (tl ?L)"
        with sh(2) have "length (hd ?L) < length y" by blast
        with O0(2) show ?thesis by linarith
      next
        assume yx: "y = x"
        show ?thesis unfolding yx using O0(2) sh(1) lx by linarith
      qed
    qed
    moreover have "length (hd (?O (hd ?L))) \<le> length x" using O0(2) sh(1) lx by linarith
    moreover have "ends ?T x \<noteq> []" unfolding eq2 using O0(1) by (simp del: ends.simps)
    ultimately show ?thesis unfolding hd_eq by blast
  qed
qed

lemma lfirst_Plus_tail:
  assumes "a \<noteq> []" "b \<noteq> []" "\<not> in_ranges rs (hd a)" "\<not> in_ranges rs (hd b)" "hd a \<noteq> hd b"
  shows "lfirst (Seq (Plus (In rs)) (Seq (Opt (Seq (Lit a) (Plus (In rs)))) (Opt (Lit b))))"
  unfolding lfirst_def
proof (intro allI ballI)
  fix s x
  let ?T = "Seq (Opt (Seq (Lit a) (Plus (In rs)))) (Opt (Lit b))"
  let ?L = "ends (Plus (In rs)) s"
  assume x: "x \<in> set (ends (Seq (Plus (In rs)) ?T) s)"
  have eq: "ends (Seq (Plus (In rs)) ?T) s = concat (map (ends ?T) ?L)"
    by (rule ends.simps(3))
  from x eq have Lne: "?L \<noteq> []" by auto
  with ends_Plus_In_shape[of rs s] have sh: "length (hd ?L) < length s"
      "\<forall>y\<in>set (tl ?L). cls_headed rs y \<and> length (hd ?L) < length y \<and> length y < length s"
    by simp_all
  have tl1: "concat (map (ends ?T) (tl ?L)) = tl ?L"
  proof (rule concat_map_singleton)
    fix y assume "y \<in> set (tl ?L)"
    with sh(2) have "cls_headed rs y" by simp
    then show "ends ?T y = [y]" by (rule ends_tail_headed[OF assms(1,2,3,4)])
  qed
  have L: "?L = hd ?L # tl ?L" using Lne by simp
  have "concat (map (ends ?T) ?L) = ends ?T (hd ?L) @ concat (map (ends ?T) (tl ?L))"
    by (subst L) (simp del: ends.simps)
  then have eq2: "ends (Seq (Plus (In rs)) ?T) s = ends ?T (hd ?L) @ tl ?L"
    unfolding eq tl1 .
  from ends_tail_facts[OF assms, of "hd ?L"] have T0: "ends ?T (hd ?L) \<noteq> []"
      "length (hd (ends ?T (hd ?L))) \<le> length (hd ?L)"
      "\<forall>y\<in>set (ends ?T (hd ?L)). length (hd (ends ?T (hd ?L))) \<le> length y"
    by blast+
  have hd_eq: "hd (ends (Seq (Plus (In rs)) ?T) s) = hd (ends ?T (hd ?L))"
    unfolding eq2 by (rule hd_append2[OF T0(1)])
  from x have "x \<in> set (ends ?T (hd ?L)) \<or> x \<in> set (tl ?L)"
    unfolding eq2 by (simp del: ends.simps)
  then have "length (hd (ends ?T (hd ?L))) \<le> length x"
  proof
    assume "x \<in> set (ends ?T (hd ?L))"
    with T0(3) show ?thesis by blast
  next
    assume "x \<in> set (tl ?L)"
    with sh(2) have "length (hd ?L) < length x" by blast
    with T0(2) show ?thesis by linarith
  qed
  then show "length (hd (ends (Seq (Plus (In rs)) ?T) s)) \<le> length x" unfolding hd_eq .
qed

lemma lfirst_pattern: "lfirst SPOTIFY_URL_PATTERN"
  unfolding SPOTIFY_URL_PATTERN_def alnum_def
  by (intro lfirst_Seq_Lit lfirst_Seq_Opt_Lit lfirst_Seq_Alt3 lfirst_Plus_tail) simp_all

subsection \<open>The pattern denotes the grammar; search finds the leftmost match\<close>

lemma lang_Plus_alnum: "w \<in> lang (Plus alnum) \<longleftrightarrow> w \<noteq> [] \<and> list_all alphanumeric w"
proof
  assume "w \<in> lang (Plus alnum)"
  from lang_PlusD[OF this] obtain ws
    where ws: "w = concat ws" "ws \<noteq> []" "set ws \<subseteq> lang alnum" by blast
  have "\<forall>x\<in>set ws. \<exists>c. x = [c] \<and> alphanumeric c"
    using ws(3) unfolding alnum_def by (auto simp: alnum_ranges simp del: in_ranges.simps)
  then have "list_all alphanumeric (concat ws) \<and> (ws \<noteq> [] \<longrightarrow> concat ws \<noteq> [])"
    by (induction ws) auto
  with ws(1,2) show "w \<noteq> [] \<and> list_all alphanumeric w" by simp
next
  assume w: "w \<noteq> [] \<and> list_all alphanumeric w"
  let ?ws = "map (\<lambda>c. [c]) w"
  have 1: "concat ?ws = w" by (induction w) simp_all
  have 2: "?ws \<noteq> []" using w by simp
  have 3: "set ?ws \<subseteq> lang alnum"
    using w unfolding alnum_def by (auto simp: alnum_ranges list_all_iff simp del: in_ranges.simps)
  from lang_PlusI[OF 2 3] show "w \<in> lang (Plus alnum)" unfolding 1 .
qed

lemma lang_Seq_iff: "m \<in> lang (Seq a b) \<longleftrightarrow> (\<exists>x y. m = x @ y \<and> x \<in> lang a \<and> y \<in> lang b)"
  by auto

lemma lang_pattern: "m \<in> lang SPOTIFY_URL_PATTERN \<longleftrightarrow> url_grammar m"
proof
  assume "m \<in> lang SPOTIFY_URL_PATTERN"
  then obtain o1 kind ident share nd where m: "m = ''http'' @ o1 @ ''://open.spotify.com/'' @ kind @ ''/'' @ ident @ share @ nd"
    and o1: "o1 = [] \<or> o1 = ''s''"
    and kind: "kind = ''track'' \<or> kind = ''album'' \<or> kind = ''playlist''"
    and ident: "ident \<in> lang (Plus alnum)"
    and share: "share = [] \<or> (\<exists>tok. share = ''?si='' @ tok \<and> tok \<in> lang (Plus alnum))"
    and nd: "nd = [] \<or> nd = ''&nd=1''"
    unfolding SPOTIFY_URL_PATTERN_def lang_Seq_iff
    by (elim exE conjE) (simp, blast)
  show "url_grammar m"
    unfolding url_grammar_def
    by (rule exI[of _ "''http'' @ o1"], rule exI[of _ kind], rule exI[of _ ident],
        rule exI[of _ share], rule exI[of _ nd])
       (use m o1 kind ident share nd in \<open>auto simp: lang_Plus_alnum\<close>)
next
  assume "url_grammar m"
  then obtain scheme kind ident share nd where
    m: "m = scheme @ ''://open.spotify.com/'' @ kind @ ''/'' @ ident @ share @ nd"
    and scheme: "scheme = ''http'' \<or> scheme = ''https''"
    and kind: "kind = ''track'' \<or> kind = ''album'' \<or> kind = ''playlist''"
    and ident: "ident \<noteq> [] \<and> list_all alphanumeric ident"
    and share: "share = [] \<or> (\<exists>tok. share = ''?si='' @ tok \<and> tok \<noteq> [] \<and> list_all alphanumeric tok)"
    and nd: "nd = [] \<or> nd = ''&nd=1''"
    unfolding url_grammar_def by blast
  from scheme obtain o1 where o1: "scheme = ''http'' @ o1" "o1 \<in> lang (Opt (Lit ''s''))"
    by auto
  have k: "kind \<in> lang (Alt (Lit ''track'') (Alt (Lit ''album'') (Lit ''playlist'')))"
    using kind by auto
  have i: "ident \<in> lang (Plus alnum)" using ident by (simp add: lang_Plus_alnum)
  have s: "share \<in> lang (Opt (Seq (Lit ''?si='') (Plus alnum)))"
    using share by (auto simp: lang_Plus_alnum)
  have n: "nd \<in> lang (Opt (Lit ''&nd=1''))" using nd by auto
  have "share @ nd \<in> lang (Seq (Opt (Seq (Lit ''?si='') (Plus alnum))) (Opt (Lit ''&nd=1'')))"
    unfolding lang_Seq_iff[of "share @ nd"] using s n by blast
  then have "ident @ share @ nd \<in> lang (Seq (Plus alnum) (Seq (Opt (Seq (Lit ''?si='') (Plus alnum))) (Opt (Lit ''&nd=1''))))"
    unfolding lang_Seq_iff[of "ident @ share @ nd"] using i by blast
  then have "''/'' @ ident @ share @ nd \<in> lang (Seq (Lit ''/'') (Seq (Plus alnum) (Seq (Opt (Seq (Lit ''?si='') (Plus alnum))) (Opt (Lit ''&nd=1'')))))"
    unfolding lang_Seq_iff[of "''/'' @ ident @ share @ nd"] by (simp del: lang.simps(3,5) append.simps)
  then have "kind @ ''/'' @ ident @ share @ nd \<in> lang (Seq (Alt (Lit ''track'') (Alt (Lit ''album'') (Lit ''playlist''))) (Seq (Lit ''/'') (Seq (Plus alnum) (Seq (Opt (Seq (Lit ''?si='') (Plus alnum))) (Opt (Lit ''&nd=1''))))))"
    unfolding lang_Seq_iff[of "kind @ ''/'' @ ident @ share @ nd"] using k by blast
  then have "''://open.spotify.com/'' @ kind @ ''/'' @ ident @ share @ nd \<in> lang (Seq (Lit ''://open.spotify.com/'') (Seq (Alt (Lit ''track'') (Alt (Lit ''album'') (Lit ''playlist''))) (Seq (Lit ''/'') (Seq (Plus alnum) (Seq (Opt (Seq (Lit ''?si='') (Plus alnum))) (Opt (Lit ''&nd=1'')))))))"
    unfolding lang_Seq_iff[of "''://open.spotify.com/'' @ kind @ ''/'' @ ident @ share @ nd"] by (simp del: lang.simps(3,4,5) append.simps) blast?
  then have "o1 @ ''://open.spotify.com/'' @ kind @ ''/'' @ ident @ share @ nd \<in> lang (Seq (Opt (Lit ''s'')) (Seq (Lit ''://open.spotify.com/'') (Seq (Alt (Lit ''track'') (Alt (Lit ''album'') (Lit ''playlist''))) (Seq (Lit ''/'') (Seq (Plus alnum) (Seq (Opt (Seq (Lit ''?si='') (Plus alnum))) (Opt (Lit ''&nd=1''))))))))"
    unfolding lang_Seq_iff[of "o1 @ ''://open.spotify.com/'' @ kind @ ''/'' @ ident @ share @ nd"] using o1(2) by blast
  then have "''http'' @ o1 @ ''://open.spotify.com/'' @ kind @ ''/'' @ ident @ share @ nd \<in> lang SPOTIFY_URL_PATTERN"
    unfolding SPOTIFY_URL_PATTERN_def lang_Seq_iff[of "''http'' @ o1 @ ''://open.spotify.com/'' @ kind @ ''/'' @ ident @ share @ nd"]
    by (simp del: lang.simps(3,4,5) append.simps) blast?
  then show "m \<in> lang SPOTIFY_URL_PATTERN" unfolding m o1(1) by simp
qed

lemma match_at_Some:
  assumes "match_at r s = Some m"
  shows "m \<in> lang r \<and> (\<exists>rest. s = m @ rest \<and> ends r s \<noteq> [] \<and> hd (ends r s) = rest)"
proof -
  from assms obtain rest L where L: "ends r s = rest # L"
    and m: "m = take (length s - length rest) s"
    unfolding match_at_def by (cases "ends r s") simp_all
  have "rest \<in> set (ends r s)" unfolding L by simp
  from ends_sound[OF this] obtain m' where m': "m' \<in> lang r" "s = m' @ rest" by blast
  have "m = m'" unfolding m m'(2) by simp
  with m' L show ?thesis by simp
qed

lemma match_at_None: "match_at r s = None \<longleftrightarrow> (\<forall>m rest. s = m @ rest \<longrightarrow> m \<notin> lang r)"
proof
  assume "match_at r s = None"
  then have e: "ends r s = []" unfolding match_at_def by (cases "ends r s") simp_all
  show "\<forall>m rest. s = m @ rest \<longrightarrow> m \<notin> lang r"
  proof (intro allI impI notI)
    fix m rest assume "s = m @ rest" "m \<in> lang r"
    with ends_complete[of m r rest] e show False by simp
  qed
next
  assume a: "\<forall>m rest. s = m @ rest \<longrightarrow> m \<notin> lang r"
  show "match_at r s = None"
  proof (cases "match_at r s")
    case (Some m)
    from match_at_Some[OF this] a show ?thesis by blast
  qed simp
qed

lemma match_at_longest:
  assumes "lfirst r" "match_at r s = Some m" "m' \<in> lang r" "s = m' @ rest'"
  shows "length m' \<le> length m"
proof -
  from match_at_Some[OF assms(2)] obtain rest
    where rest: "s = m @ rest" "hd (ends r s) = rest" by blast
  have "rest' \<in> set (ends r s)" unfolding assms(4) by (rule ends_complete[OF assms(3)])
  with assms(1) have "length (hd (ends r s)) \<le> length rest'" unfolding lfirst_def by blast
  then have "length rest \<le> length rest'" unfolding rest(2) .
  moreover have "length m + length rest = length m' + length rest'"
    using rest(1) assms(4) by (metis length_append)
  ultimately show ?thesis by linarith
qed

lemma search_None:
  "search r s = None \<longleftrightarrow> (\<forall>pre m post. s = pre @ m @ post \<longrightarrow> m \<notin> lang r)"
proof (induction s)
  case Nil
  show ?case by (simp add: match_at_None)
next
  case (Cons c cs)
  show ?case
  proof
    assume n: "search r (c # cs) = None"
    then have 1: "match_at r (c # cs) = None" and 2: "search r cs = None"
      by (simp_all split: option.splits)
    show "\<forall>pre m post. c # cs = pre @ m @ post \<longrightarrow> m \<notin> lang r"
    proof (intro allI impI)
      fix pre m post assume e: "c # cs = pre @ m @ post"
      show "m \<notin> lang r"
      proof (cases pre)
        case Nil
        with e 1 show ?thesis unfolding match_at_None by simp
      next
        case (Cons p pre')
        with e have "cs = pre' @ m @ post" by simp
        with 2 Cons.IH show ?thesis by blast
      qed
    qed
  next
    assume a: "\<forall>pre m post. c # cs = pre @ m @ post \<longrightarrow> m \<notin> lang r"
    have 1: "match_at r (c # cs) = None" unfolding match_at_None
    proof (intro allI impI)
      fix m rest assume "c # cs = m @ rest"
      then have "c # cs = [] @ m @ rest" by simp
      with a show "m \<notin> lang r" by blast
    qed
    have "\<forall>pre m post. cs = pre @ m @ post \<longrightarrow> m \<notin> lang r"
    proof (intro allI impI)
      fix pre m post assume "cs = pre @ m @ post"
      then have "c # cs = (c # pre) @ m @ post" by simp
      with a show "m \<notin> lang r" by blast
    qed
    with Cons.IH have 2: "search r cs = None" by simp
    show "search r (c # cs) = None" using 1 2 by simp
  qed
qed

lemma search_Some:
  "search r s = Some m \<Longrightarrow>
     \<exists>pre post. s = pre @ m @ post \<and> match_at r (m @ post) = Some m \<and>
       (\<forall>pre' m' post'. s = pre' @ m' @ post' \<and> m' \<in> lang r \<longrightarrow> length pre \<le> length pre')"
proof (induction s)
  case Nil
  then have ma: "match_at r [] = Some m" by simp
  from match_at_Some[OF this] have "m = []" by simp
  with ma show ?case by simp
next
  case (Cons c cs)
  show ?case
  proof (cases "match_at r (c # cs)")
    case (Some m0)
    with Cons.prems have m0: "m0 = m" by simp
    from match_at_Some[OF Some] obtain rest where rest: "c # cs = m @ rest"
      unfolding m0 by blast
    have "c # cs = [] @ m @ rest \<and> match_at r (m @ rest) = Some m \<and>
       (\<forall>pre' m' post'. c # cs = pre' @ m' @ post' \<and> m' \<in> lang r \<longrightarrow> length ([]::string) \<le> length pre')"
      using Some rest m0 by simp
    then show ?thesis by blast
  next
    case None
    with Cons.prems have "search r cs = Some m" by simp
    from Cons.IH[OF this] obtain pre post where ih: "cs = pre @ m @ post"
      "match_at r (m @ post) = Some m"
      "\<forall>pre' m' post'. cs = pre' @ m' @ post' \<and> m' \<in> lang r \<longrightarrow> length pre \<le> length pre'"
      by blast
    have "\<forall>pre' m' post'. c # cs = pre' @ m' @ post' \<and> m' \<in> lang r \<longrightarrow> length (c # pre) \<le> length pre'"
    proof (intro allI impI)
      fix pre' m' post' assume a: "c # cs = pre' @ m' @ post' \<and> m' \<in> lang r"
      show "length (c # pre) \<le> length pre'"
      proof (cases pre')
        case Nil
        with a None show ?thesis unfolding match_at_None by simp
      next
        case (Cons p pre'')
        with a have "cs = pre'' @ m' @ post' \<and> m' \<in> lang r" by simp
        with ih(3) have "length pre \<le> length pre''" by blast
        with Cons show ?thesis by simp
      qed
    qed
    moreover have "c # cs = (c # pre) @ m @ post" using ih(1) by simp
    ultimately show ?thesis using ih(2) by blast
  qed
qed

section \<open>The link validator\<close>

text \<open>
  C1. For every text, the link validator (\<^verbatim>\<open>SPOTIFY_URL_PATTERN.search\<close>, then
  \<^verbatim>\<open>group(0)\<close>) returns no match exactly when no substring of the text matches the URL
  grammar; and when it returns \<open>u\<close>, then \<open>u\<close> matches the grammar, \<open>u\<close> is a substring of
  the text, no substring matching the grammar starts further left, and no substring
  matching the grammar that starts at the same place is longer: the result is the first
  match, exactly that substring and nothing more.
\<close>

theorem link_validator_first_match:
  "(search SPOTIFY_URL_PATTERN txt = None \<longleftrightarrow>
      \<not> (\<exists>pre m post. txt = pre @ m @ post \<and> url_grammar m)) \<and>
   (\<forall>u. search SPOTIFY_URL_PATTERN txt = Some u \<longrightarrow>
      url_grammar u \<and>
      (\<exists>pre post. txt = pre @ u @ post \<and>
         (\<forall>pre' m' post'. txt = pre' @ m' @ post' \<and> url_grammar m' \<longrightarrow>
            length pre < length pre' \<or> (pre' = pre \<and> length m' \<le> length u))))"
proof (intro conjI allI impI)
  show "search SPOTIFY_URL_PATTERN txt = None \<longleftrightarrow>
      \<not> (\<exists>pre m post. txt = pre @ m @ post \<and> url_grammar m)"
    unfolding search_None lang_pattern by blast
next
  fix u assume s: "search SPOTIFY_URL_PATTERN txt = Some u"
  from search_Some[OF s] obtain pre post where p: "txt = pre @ u @ post"
    "match_at SPOTIFY_URL_PATTERN (u @ post) = Some u"
    "\<forall>pre' m' post'. txt = pre' @ m' @ post' \<and> m' \<in> lang SPOTIFY_URL_PATTERN \<longrightarrow> length pre \<le> length pre'"
    by blast
  from match_at_Some[OF p(2)] show "url_grammar u" unfolding lang_pattern by blast
  have "\<forall>pre' m' post'. txt = pre' @ m' @ post' \<and> url_grammar m' \<longrightarrow>
            length pre < length pre' \<or> (pre' = pre \<and> length m' \<le> length u)"
  proof (intro allI impI)
    fix pre' m' post' assume a: "txt = pre' @ m' @ post' \<and> url_grammar m'"
    then have m': "m' \<in> lang SPOTIFY_URL_PATTERN" unfolding lang_pattern by simp
    with a p(3) have le: "length pre \<le> length pre'" by blast
    show "length pre < length pre' \<or> (pre' = pre \<and> length m' \<le> length u)"
    proof (cases "length pre < length pre'")
      case False
      with le have "length pre' = length pre" by simp
      with a p(1) have eq: "pre' = pre" "u @ post = m' @ post'" by auto
      from match_at_longest[OF lfirst_pattern p(2) m' eq(2)] eq(1) show ?thesis by simp
    qed simp
  qed
  with p(1) show "\<exists>pre post. txt = pre @ u @ post \<and>
         (\<forall>pre' m' post'. txt = pre' @ m' @ post' \<and> url_grammar m' \<longrightarrow>
            length pre < length pre' \<or> (pre' = pre \<and> length m' \<le> length u))"
    by blast
qed

theorem link_validator_first_match_witness:
  "search SPOTIFY_URL_PATTERN ''see https://open.spotify.com/track/abc123?si=xyz789 now'' =
     Some ''https://open.spotify.com/track/abc123?si=xyz789'' \<and>
   url_grammar ''https://open.spotify.com/track/abc123?si=xyz789'' \<and>
   search SPOTIFY_URL_PATTERN ''check this out open.spotify.com/track/abc123?si=xyz and more text'' = None \<and>
   \<not> (\<exists>pre m post. ''check this out open.spotify.com/track/abc123?si=xyz and more text'' = pre @ m @ post \<and> url_grammar m)"
proof -
  have 1: "search SPOTIFY_URL_PATTERN ''see https://open.spotify.com/track/abc123?si=xyz789 now'' =
     Some ''https://open.spotify.com/track/abc123?si=xyz789''"
    by (simp add: SPOTIFY_URL_PATTERN_def alnum_def match_at_def ends.simps(6))
  have 2: "search SPOTIFY_URL_PATTERN ''check this out open.spotify.com/track/abc123?si=xyz and more text'' = None"
    by (simp add: SPOTIFY_URL_PATTERN_def alnum_def match_at_def ends.simps(6))
  from link_validator_first_match[of "''see https://open.spotify.com/track/abc123?si=xyz789 now''"] 1
  have 3: "url_grammar ''https://open.spotify.com/track/abc123?si=xyz789''" by blast
  from link_validator_first_match[of "''check this out open.spotify.com/track/abc123?si=xyz and more text''"] 2
  have 4: "\<not> (\<exists>pre m post. ''check this out open.spotify.com/track/abc123?si=xyz and more text'' = pre @ m @ post \<and> url_grammar m)"
    by blast
  from 1 2 3 4 show ?thesis by blast
qed

section \<open>The conversion client, step by step\<close>

lemmas io_defs =
  ret_def throw_def lift_def perform_def emit_def bind_def try_except_def try_finally_def

subsection \<open>Splitting and indexing\<close>

lemma str_split_ne: "str_split sep s \<noteq> []"
  by (induction s) (simp_all split: list.splits)

lemma hd_str_split: "hd (str_split sep s) = takeWhile (\<lambda>c. c \<noteq> sep) s"
proof (induction s)
  case Nil
  show ?case by simp
next
  case (Cons c s)
  then show ?case using str_split_ne[of sep s]
    by (cases "str_split sep s") simp_all
qed

lemma str_split_no_sep: "sep \<notin> set s \<Longrightarrow> str_split sep s = [s]"
  by (induction s) auto

lemma str_split_sep: "sep \<in> set s \<Longrightarrow> tl (str_split sep s) \<noteq> []"
proof (induction s)
  case Nil
  then show ?case by simp
next
  case (Cons c s)
  show ?case
  proof (cases "c = sep")
    case True
    then show ?thesis by (simp add: str_split_ne)
  next
    case False
    with Cons have "tl (str_split sep s) \<noteq> []" by simp
    then show ?thesis using False by (cases "str_split sep s") simp_all
  qed
qed

lemma last_str_split: "last (str_split sep s) = rev (takeWhile (\<lambda>c. c \<noteq> sep) (rev s))"
proof (induction s)
  case Nil
  show ?case by simp
next
  case (Cons c s)
  show ?case
  proof (cases "c = sep")
    case True
    then show ?thesis using Cons.IH str_split_ne[of sep s]
      by (simp add: takeWhile_tail)
  next
    case False
    show ?thesis
    proof (cases "sep \<in> set s")
      case True
      from str_split_sep[OF this] obtain w v vs where ws: "str_split sep s = w # v # vs"
        by (cases "str_split sep s"; cases "tl (str_split sep s)") auto
      have "takeWhile (\<lambda>c. c \<noteq> sep) (rev s @ [c]) = takeWhile (\<lambda>c. c \<noteq> sep) (rev s)"
        using True by (intro takeWhile_append1[of sep]) simp_all
      then show ?thesis using Cons.IH False ws by simp
    next
      case False
      then have "takeWhile (\<lambda>c. c \<noteq> sep) (rev s @ [c]) = rev s @ takeWhile (\<lambda>c. c \<noteq> sep) [c]"
        by (intro takeWhile_append2) auto
      then have A: "rev (takeWhile (\<lambda>c. c \<noteq> sep) (rev (c # s))) = c # s"
        using \<open>c \<noteq> sep\<close> by simp
      have B: "last (str_split sep (c # s)) = c # s"
        using \<open>c \<noteq> sep\<close> str_split_no_sep[OF False] by simp
      show ?thesis unfolding A B ..
    qed
  qed
qed

lemma index_last: "xs \<noteq> [] \<Longrightarrow> index xs (- 1) = Inr (last xs)"
proof -
  assume ne: "xs \<noteq> []"
  then have l: "0 < length xs" by simp
  have "(- 1) mod int (length xs) = int (length xs) - 1"
    using l by (simp add: zmod_minus1)
  then have "nat ((- 1) mod int (length xs)) = length xs - 1" by simp
  moreover have "- int (length xs) \<le> - 1 \<and> - 1 < int (length xs)" using l by linarith
  ultimately show ?thesis using ne unfolding index_def by (simp add: last_conv_nth)
qed

lemma index_first: "xs \<noteq> [] \<Longrightarrow> index xs 0 = Inr (hd xs)"
  by (cases xs) (simp_all add: index_def)

lemma derive_track_name_eq:
  "derive_track_name spotify_url =
     ''Track_'' @ takeWhile (\<lambda>c. c \<noteq> CHR ''?'')
                  (rev (takeWhile (\<lambda>c. c \<noteq> CHR ''/'') (rev spotify_url)))"
  unfolding derive_track_name_def
  by (simp only: index_last[OF str_split_ne] index_first[OF str_split_ne] sum.case
        last_str_split hd_str_split)

subsection \<open>The file name\<close>

text \<open>
  C4, as the code has it. For every source URL the suggested name is the fixed label
  \<^verbatim>\<open>Track_\<close> followed by the last segment of the URL between slashes, cut at its first
  question mark. Splitting and indexing never fail on a string, so the handler's name
  \<^verbatim>\<open>Downloaded_Track\<close> is never used, and nothing is raised: the derivation is a total
  function.
\<close>

theorem track_name_from_last_segment:
  "derive_track_name spotify_url =
     ''Track_'' @ takeWhile (\<lambda>c. c \<noteq> CHR ''?'')
                  (rev (takeWhile (\<lambda>c. c \<noteq> CHR ''/'') (rev spotify_url)))
   \<and> derive_track_name spotify_url \<noteq> ''Downloaded_Track''"
  unfolding derive_track_name_eq by simp

text \<open>
  The claim as worded takes the empty string for a URL on which extraction fails and
  the generic name is used. On the empty string the code gives the bare label.
\<close>

theorem track_name_empty_url: "derive_track_name [] = ''Track_''"
  by (simp add: derive_track_name_def index_def)

lemma track_name_examples:
  "derive_track_name ''https://open.spotify.com/track/xyz789'' = ''Track_xyz789''"
  "derive_track_name ''https://open.spotify.com/track/xyz789?si=abc'' = ''Track_xyz789''"
  by (simp_all add: derive_track_name_def index_def)

subsection \<open>What each step does\<close>

lemma size_mb_gt: "((of_nat n :: rat) / (1024 * 1024) > 50) = (52428800 < n)"
proof -
  have "((of_nat n :: rat) / (1024 * 1024) > 50) = ((of_nat n :: rat) > of_nat 52428800)"
    by (simp add: field_simps)
  also have "\<dots> = (52428800 < n)" by (simp only: of_nat_less_iff)
  finally show ?thesis .
qed

lemma step_1_unfold:
  "step_1 env spotify_url =
     (case requests_post env spotify_url of
        Inl e \<Rightarrow> ([HttpPost spotify_url 30], Inl e)
      | Inr r \<Rightarrow>
          (case content r of
             Inl e \<Rightarrow> ([HttpPost spotify_url 30], Inl (Raised e None))
           | Inr b \<Rightarrow>
              if 400 \<le> status_code r \<and> status_code r < 600
              then ([HttpPost spotify_url 30], Inl (Raised RequestException (Some r)))
              else (case json r of
                  Inl e \<Rightarrow> ([HttpPost spotify_url 30], Inl (Raised e None))
                | Inr (JObj kvs) \<Rightarrow>
                    if get_field kvs ''error'' = JBool True \<or> \<not> truthy (get_field kvs ''url'')
                    then ([HttpPost spotify_url 30, Error Step1Failed], Inr None)
                    else if \<not> truthy (get_field kvs ''payload'')
                    then ([HttpPost spotify_url 30, Error MissingUrlOrPayload], Inr None)
                    else ([HttpPost spotify_url 30],
                          Inr (Some (get_field kvs ''url'', get_field kvs ''payload'',
                                     derive_track_name spotify_url)))
                | Inr other \<Rightarrow> ([HttpPost spotify_url 30], Inl (Raised OtherException None)))))"
  unfolding step_1_def http_post_def raise_for_status_def step_1_rejected_def dict_get_def
  by (simp add: io_defs split: sum.splits jvalue.splits)

lemma step_2_unfold:
  "step_2 env u p =
     (case requests_get env u p of
        Inl e \<Rightarrow> ([HttpGet u p 60], Inl e)
      | Inr r \<Rightarrow>
          if 400 \<le> status_code r \<and> status_code r < 600
          then ([HttpGet u p 60], Inl (Raised RequestException (Some r)))
          else ([HttpGet u p 60],
                case content r of Inl e \<Rightarrow> Inl (Raised e None) | Inr b \<Rightarrow> Inr b))"
  unfolding step_2_def http_get_def raise_for_status_def
  by (simp add: io_defs split: sum.splits)

lemma except_clauses_unfold:
  "except_clauses (Raised Timeout resp) = ([Error TimedOut], Inr (None, None))"
  "except_clauses (Raised OtherException resp) = ([Error Unexpected], Inr (None, None))"
  "except_clauses (Raised RequestException None) = ([Error ApiCallError], Inr (None, None))"
  "except_clauses (Raised RequestException (Some r)) =
     (case content r of
        Inl e \<Rightarrow> ([Error ApiCallError, Error (ResponseCode (status_code r))], Inl (Raised e None))
      | Inr b \<Rightarrow>
          ([Error ApiCallError, Error (ResponseCode (status_code r)), Error ResponseBody],
           Inr (None, None)))"
  unfolding except_clauses_def response_text_def
  by (simp_all add: io_defs split: sum.splits)

lemma call_download_api_unfold:
  "call_download_api env spotify_url =
     (case step_1 env spotify_url of
        (t1, Inl e) \<Rightarrow>
          (Info (Attempting spotify_url) # t1 @ fst (except_clauses e), snd (except_clauses e))
      | (t1, Inr None) \<Rightarrow> (Info (Attempting spotify_url) # t1, Inr (None, None))
      | (t1, Inr (Some (u, p, track_name))) \<Rightarrow>
          (case step_2 env u p of
             (t2, Inl e) \<Rightarrow>
               (Info (Attempting spotify_url) # t1 @ Info Step1Success # t2 @
                  fst (except_clauses e),
                snd (except_clauses e))
           | (t2, Inr body) \<Rightarrow>
               if 52428800 < length body
               then (Info (Attempting spotify_url) # t1 @ Info Step1Success # t2 @
                       [Info (FileSize (length body)), Error TooLarge],
                     Inr (None, None))
               else (Info (Attempting spotify_url) # t1 @ Info Step1Success # t2 @
                       [Info (FileSize (length body)), Info (Downloaded (track_name @ ''.mp3''))],
                     Inr (Some \<lparr>data = body, name = track_name @ ''.mp3'', position = 0\<rparr>,
                          Some track_name))))"
  unfolding call_download_api_def
  by (simp add: io_defs size_mb_gt Let_def split: prod.splits sum.splits option.splits)

lemma except_clauses_plain:
  "filter is_http_get (fst (except_clauses e)) = []"
  "filter is_reply_audio (fst (except_clauses e)) = []"
  "ReplyAudio a f w \<notin> set (fst (except_clauses e))"
  "EditMessageText m r \<notin> set (fst (except_clauses e))"
proof -
  obtain c resp where e: "e = Raised c resp" by (cases e)
  show "filter is_http_get (fst (except_clauses e)) = []"
    "filter is_reply_audio (fst (except_clauses e)) = []"
    "ReplyAudio a f w \<notin> set (fst (except_clauses e))"
    "EditMessageText m r \<notin> set (fst (except_clauses e))"
    unfolding e by (cases c; cases resp; simp add: except_clauses_unfold split: sum.splits)+
qed

lemma step_1_no_get: "filter is_http_get (fst (step_1 env spotify_url)) = []"
  unfolding step_1_unfold by (simp split: sum.splits jvalue.splits)

lemma except_clauses_result:
  "snd (except_clauses e) = Inr (None, None) \<or>
   (\<exists>r x. e = Raised RequestException (Some r) \<and> content r = Inl x \<and>
      snd (except_clauses e) = Inl (Raised x None))"
proof -
  obtain c resp where e: "e = Raised c resp" by (cases e)
  show ?thesis
    unfolding e by (cases c; cases resp; simp add: except_clauses_unfold split: sum.splits)
qed

lemma delivery_unfold:
  "delivery env sm audio track_name =
     (case reply_audio env audio (mp3_filename track_name) of
        Inl e \<Rightarrow>
          ([ReplyAudio audio (mp3_filename track_name) 120, Error SendFailed,
            ReplyText UploadFailed, Close],
           case reply_text env UploadFailed of Inl e' \<Rightarrow> Inl (Raised e' None) | Inr m \<Rightarrow> Inr ())
      | Inr ok \<Rightarrow>
          (case edit_message_text env sm StatusSuccess of
             Inl e \<Rightarrow>
               ([ReplyAudio audio (mp3_filename track_name) 120, EditMessageText sm StatusSuccess,
                 Error SendFailed, ReplyText UploadFailed, Close],
                case reply_text env UploadFailed of Inl e' \<Rightarrow> Inl (Raised e' None) | Inr m \<Rightarrow> Inr ())
           | Inr ok' \<Rightarrow>
               ([ReplyAudio audio (mp3_filename track_name) 120, EditMessageText sm StatusSuccess,
                 Close],
                Inr ())))"
  unfolding delivery_def tg_reply_audio_def tg_edit_message_text_def tg_reply_text_def
  by (simp add: io_defs split: sum.splits)

lemma process_spotify_link_unfold:
  "process_spotify_link env url =
     (case reply_text env StatusConnecting of
        Inl e \<Rightarrow> ([ReplyText StatusConnecting], Inl (Raised e None))
      | Inr sm \<Rightarrow>
          (case call_download_api env url of
             (t, Inl e) \<Rightarrow> (ReplyText StatusConnecting # t, Inl e)
           | (t, Inr (None, track_name)) \<Rightarrow>
               (ReplyText StatusConnecting # t @ [EditMessageText sm DownloadFailed],
                case edit_message_text env sm DownloadFailed of
                  Inl e \<Rightarrow> Inl (Raised e None) | Inr ok \<Rightarrow> Inr ok)
           | (t, Inr (Some audio, track_name)) \<Rightarrow>
               (ReplyText StatusConnecting # t @ fst (delivery env sm audio track_name),
                snd (delivery env sm audio track_name))))"
  unfolding process_spotify_link_def tg_edit_message_text_def tg_reply_text_def
  by (simp add: io_defs split: sum.splits prod.splits option.splits)

lemma step_1_plain: "filter is_reply_audio (fst (step_1 env spotify_url)) = []"
  "ReplyAudio a f w \<notin> set (fst (step_1 env spotify_url))"
  "EditMessageText m r \<notin> set (fst (step_1 env spotify_url))"
  unfolding step_1_unfold by (simp_all split: sum.splits jvalue.splits)

lemma step_2_plain: "filter is_reply_audio (fst (step_2 env u p)) = []"
  "ReplyAudio a f w \<notin> set (fst (step_2 env u p))"
  "EditMessageText m r \<notin> set (fst (step_2 env u p))"
  unfolding step_2_unfold by (simp_all split: sum.splits)

lemma call_download_api_plain:
  "filter is_reply_audio (fst (call_download_api env spotify_url)) = []"
  "ReplyAudio a f w \<notin> set (fst (call_download_api env spotify_url))"
  "EditMessageText m r \<notin> set (fst (call_download_api env spotify_url))"
proof -
  obtain t1 r1 where s1: "step_1 env spotify_url = (t1, r1)" by (cases "step_1 env spotify_url")
  have p1: "filter is_reply_audio t1 = []" "ReplyAudio a f w \<notin> set t1"
    "EditMessageText m r \<notin> set t1"
    using step_1_plain[where env = env and spotify_url = spotify_url] s1 by simp_all
  have p2: "filter is_reply_audio t2 = [] \<and> ReplyAudio a f w \<notin> set t2 \<and>
    EditMessageText m r \<notin> set t2" if "step_2 env u p = (t2, r2)" for u p t2 r2
    using step_2_plain[where env = env and u = u and p = p] that by simp
  show "filter is_reply_audio (fst (call_download_api env spotify_url)) = []"
    "ReplyAudio a f w \<notin> set (fst (call_download_api env spotify_url))"
    "EditMessageText m r \<notin> set (fst (call_download_api env spotify_url))"
    unfolding call_download_api_unfold s1 using p1 p2 except_clauses_plain
    by (auto split: sum.splits option.splits prod.splits)
qed

section \<open>Failures of the first phase\<close>




text \<open>
  A parsed body that is no object has no fields at all: the lookup raises, the last
  handler returns \<^verbatim>\<open>None, None\<close>, and no Phase 2 request is made either.
\<close>

lemma non_object_body_is_absence:
  assumes "requests_post env spotify_url = Inr api_response"
    and "json api_response = Inr j"
    and "\<And>kvs. j \<noteq> JObj kvs"
  shows "snd (call_download_api env spotify_url) = Inr (None, None) \<and>
         filter is_http_get (fst (call_download_api env spotify_url)) = []"
proof -
  have "\<exists>e. step_1 env spotify_url = ([HttpPost spotify_url 30], Inl e) \<and>
          snd (except_clauses e) = Inr (None, None)"
  proof (cases "content api_response")
    case (Inl a)
    have "step_1 env spotify_url = ([HttpPost spotify_url 30], Inl (Raised a None))"
      unfolding step_1_unfold using assms(1) Inl by simp
    moreover have "snd (except_clauses (Raised a None)) = Inr (None, None)"
      by (cases a) (simp_all add: except_clauses_unfold)
    ultimately show ?thesis by blast
  next
    case (Inr b)
    show ?thesis
    proof (cases "400 \<le> status_code api_response \<and> status_code api_response < 600")
      case True
      have "step_1 env spotify_url =
          ([HttpPost spotify_url 30], Inl (Raised RequestException (Some api_response)))"
        unfolding step_1_unfold using assms(1) Inr True by simp
      moreover have "snd (except_clauses (Raised RequestException (Some api_response))) =
          Inr (None, None)"
        using Inr by (simp add: except_clauses_unfold)
      ultimately show ?thesis by blast
    next
      case False
      have "step_1 env spotify_url = ([HttpPost spotify_url 30], Inl (Raised OtherException None))"
        unfolding step_1_unfold using assms Inr False by (cases j) auto
      moreover have "snd (except_clauses (Raised OtherException None)) = Inr (None, None)"
        by (simp add: except_clauses_unfold)
      ultimately show ?thesis by blast
    qed
  qed
  then obtain e where s1: "step_1 env spotify_url = ([HttpPost spotify_url 30], Inl e)"
    "snd (except_clauses e) = Inr (None, None)" by blast
  show ?thesis
    unfolding call_download_api_unfold s1(1) using s1(2) except_clauses_plain(1)[of e]
    by simp
qed

text \<open>
  C8. For every Phase 1 request that ends in \<^verbatim>\<open>requests.exceptions.Timeout\<close> (the
  request is made with a timeout of 30), the client returns \<^verbatim>\<open>None, None\<close> at once: its
  trace is the first log line, the Phase 1 request and the line of the timeout handler;
  no rejection line and no Phase 2 request is in it.
\<close>

theorem phase_1_timeout_is_transport_failure:
  assumes "requests_post env spotify_url = Inl (Raised Timeout resp)"
  shows "call_download_api env spotify_url =
           ([Info (Attempting spotify_url), HttpPost spotify_url 30, Error TimedOut],
            Inr (None, None))"
  using assms unfolding call_download_api_unfold step_1_unfold
  by (simp add: except_clauses_unfold)

theorem phase_1_timeout_is_transport_failure_witness:
  "call_download_api timing_out ''https://open.spotify.com/track/abc'' =
     ([Info (Attempting ''https://open.spotify.com/track/abc''),
       HttpPost ''https://open.spotify.com/track/abc'' 30, Error TimedOut],
      Inr (None, None))"
  by (rule phase_1_timeout_is_transport_failure) (simp add: timing_out_def serving_def)

section \<open>The payload\<close>

text \<open>
  What the client returns is \<^verbatim>\<open>None, None\<close> or a buffer together with a name, the
  buffer's own name being that name with \<^verbatim>\<open>.mp3\<close>: never one of the two without the
  other. It returns in every case but one: when the handler for \<^verbatim>\<open>RequestException\<close>
  gets an exception that carries a response whose body cannot be read, it raises while
  it logs the text of that response, and the exception leaves the client.
\<close>

lemma never_a_partial_payload:
  "snd (call_download_api env spotify_url) = Inr (None, None) \<or>
   (\<exists>audio track_name.
      snd (call_download_api env spotify_url) = Inr (Some audio, Some track_name) \<and>
      name audio = track_name @ ''.mp3'') \<or>
   (\<exists>r x.
      content r = Inl x \<and>
      snd (call_download_api env spotify_url) =
        snd (except_clauses (Raised RequestException (Some r))) \<and>
      snd (call_download_api env spotify_url) = Inl (Raised x None))"
proof -
  have h: "snd (except_clauses e) = Inr (None, None) \<or>
      (\<exists>r x. content r = Inl x \<and>
        snd (except_clauses e) = snd (except_clauses (Raised RequestException (Some r))) \<and>
        snd (except_clauses e) = Inl (Raised x None))" for e
    using except_clauses_result[of e] by blast
  obtain t1 r1 where s1: "step_1 env spotify_url = (t1, r1)" by (cases "step_1 env spotify_url")
  show ?thesis
  proof (cases r1)
    case (Inl e)
    have c: "snd (call_download_api env spotify_url) = snd (except_clauses e)"
      using s1 Inl by (simp add: call_download_api_unfold)
    from h[of e] show ?thesis unfolding c by blast
  next
    case (Inr step1)
    show ?thesis
    proof (cases step1)
      case None
      then show ?thesis using s1 Inr by (simp add: call_download_api_unfold)
    next
      case (Some triple)
      obtain u p tn where triple: "triple = (u, p, tn)" by (cases triple)
      obtain t2 r2 where s2: "step_2 env u p = (t2, r2)" by (cases "step_2 env u p")
      have s1': "step_1 env spotify_url = (t1, Inr (Some (u, p, tn)))"
        using s1 Inr Some triple by simp
      show ?thesis
      proof (cases r2)
        case (Inr body)
        have "snd (call_download_api env spotify_url) =
            (if 52428800 < length body then Inr (None, None)
             else Inr (Some \<lparr>data = body, name = tn @ ''.mp3'', position = 0\<rparr>, Some tn))"
          using s2 Inr by (simp add: call_download_api_unfold s1')
        then show ?thesis by (cases "52428800 < length body") simp_all
      next
        case (Inl e)
        have c: "snd (call_download_api env spotify_url) = snd (except_clauses e)"
          using s2 Inl by (simp add: call_download_api_unfold s1')
        from h[of e] show ?thesis unfolding c by blast
      qed
    qed
  qed
qed

text \<open>
  C6 says that every call of the client results in a complete payload or in the
  absence of both parts. It does not on the service whose Phase 2 answers with status
  503 and a body that breaks off: \<^verbatim>\<open>raise_for_status\<close> raises, the handler logs the status
  code, reading the text of the response raises inside the handler, and the call ends
  with that exception instead of \<^verbatim>\<open>None, None\<close>.
\<close>

theorem handler_raises_on_cut_error_body:
  "call_download_api error_body_cut ''https://open.spotify.com/track/abc'' =
     ([Info (Attempting ''https://open.spotify.com/track/abc''),
       HttpPost ''https://open.spotify.com/track/abc'' 30, Info Step1Success,
       HttpGet (JStr ''https://cdn.example/file'') (JStr ''token'') 60,
       Error ApiCallError, Error (ResponseCode 503)],
      Inl (Raised RequestException None))"
  unfolding call_download_api_unfold step_1_unfold step_2_unfold
  by (simp add: error_body_cut_def serving_def accepting_body_def get_field_def
        derive_track_name_def index_def except_clauses_unfold)

text \<open>
  C5, as the code has it. Every payload the client returns holds at most 50 MiB
  (52428800 bytes). The code does not test that the body is non-empty.
\<close>

theorem payload_within_ceiling:
  assumes "snd (call_download_api env spotify_url) = Inr (Some audio, track_name)"
  shows "length (data audio) \<le> 52428800"
proof -
  have nx: "snd (except_clauses e) \<noteq> Inr (Some audio, track_name)" for e
    using except_clauses_result[of e] by auto
  show ?thesis
    using assms nx unfolding call_download_api_unfold
    by (auto split: prod.splits sum.splits option.splits if_splits)
qed

theorem payload_within_ceiling_witness:
  "snd (call_download_api (serving (replicate 52428800 0)) ''https://open.spotify.com/track/abc'') =
     Inr (Some \<lparr>data = replicate 52428800 0, name = ''Track_abc.mp3'', position = 0\<rparr>,
          Some ''Track_abc'')
   \<and> length (data \<lparr>data = replicate 52428800 (0 :: 8 word), name = ''Track_abc.mp3'',
                     position = 0\<rparr>) \<le> 52428800"
proof -
  have 1: "snd (call_download_api (serving (replicate 52428800 0))
                  ''https://open.spotify.com/track/abc'') =
     Inr (Some \<lparr>data = replicate 52428800 0, name = ''Track_abc.mp3'', position = 0\<rparr>,
          Some ''Track_abc'')"
    unfolding call_download_api_unfold step_1_unfold step_2_unfold
    by (simp add: serving_def accepting_body_def get_field_def derive_track_name_def index_def)
  from payload_within_ceiling[OF 1] 1 show ?thesis by blast
qed

text \<open>
  The claim as worded also says that the bytes are non-empty. A service that answers
  Phase 2 with an empty body gets an empty payload returned.
\<close>

theorem empty_payload_returned:
  "snd (call_download_api (serving []) ''https://open.spotify.com/track/abc'') =
     Inr (Some \<lparr>data = [], name = ''Track_abc.mp3'', position = 0\<rparr>, Some ''Track_abc'')"
  unfolding call_download_api_unfold step_1_unfold step_2_unfold
  by (simp add: serving_def accepting_body_def get_field_def derive_track_name_def index_def)

text \<open>
  C3. When Step 1 succeeds and Step 2 fetches a body, a body of at most 52428800 bytes
  (50 MiB, the boundary included) is returned as the payload and, the status message
  sent, handed to the audio send; a longer body (50 MiB and one byte is the first)
  gives \<^verbatim>\<open>None, None\<close> after the too-large error line, and no audio send is ever
  attempted.
\<close>

theorem size_ceiling_inclusive:
  assumes "step_1 env spotify_url = (t1, Inr (Some (u, p, track_name)))"
    and "step_2 env u p = (t2, Inr body)"
  shows "(length body \<le> 52428800 \<longrightarrow>
            snd (call_download_api env spotify_url) =
              Inr (Some \<lparr>data = body, name = track_name @ ''.mp3'', position = 0\<rparr>,
                   Some track_name) \<and>
            (\<forall>sm. reply_text env StatusConnecting = Inr sm \<longrightarrow>
               ReplyAudio \<lparr>data = body, name = track_name @ ''.mp3'', position = 0\<rparr>
                 (track_name @ ''.mp3'') 120
                 \<in> set (fst (process_spotify_link env spotify_url)))) \<and>
         (52428800 < length body \<longrightarrow>
            snd (call_download_api env spotify_url) = Inr (None, None) \<and>
            last (fst (call_download_api env spotify_url)) = Error TooLarge \<and>
            filter is_reply_audio (fst (process_spotify_link env spotify_url)) = [])"
proof (intro conjI impI allI)
  assume le: "length body \<le> 52428800"
  show r: "snd (call_download_api env spotify_url) =
              Inr (Some \<lparr>data = body, name = track_name @ ''.mp3'', position = 0\<rparr>,
                   Some track_name)"
    using assms le by (simp add: call_download_api_unfold)
  fix sm assume sm: "reply_text env StatusConnecting = Inr sm"
  obtain t where t: "call_download_api env spotify_url =
      (t, Inr (Some \<lparr>data = body, name = track_name @ ''.mp3'', position = 0\<rparr>, Some track_name))"
    using r by (cases "call_download_api env spotify_url") simp
  show "ReplyAudio \<lparr>data = body, name = track_name @ ''.mp3'', position = 0\<rparr>
                 (track_name @ ''.mp3'') 120
                 \<in> set (fst (process_spotify_link env spotify_url))"
    unfolding process_spotify_link_unfold sm t delivery_unfold
    by (simp add: mp3_filename_def split: sum.splits)
next
  assume gt: "52428800 < length body"
  show r: "snd (call_download_api env spotify_url) = Inr (None, None)"
    using assms gt by (simp add: call_download_api_unfold)
  show "last (fst (call_download_api env spotify_url)) = Error TooLarge"
    using assms gt by (simp add: call_download_api_unfold)
  obtain t where t: "call_download_api env spotify_url = (t, Inr (None, None))"
    using r by (cases "call_download_api env spotify_url") simp
  have "filter is_reply_audio t = []"
    using call_download_api_plain(1)[where env = env and spotify_url = spotify_url] t by simp
  then show "filter is_reply_audio (fst (process_spotify_link env spotify_url)) = []"
    unfolding process_spotify_link_unfold t by (simp split: sum.splits)
qed

theorem size_ceiling_inclusive_witness:
  "snd (call_download_api (serving (replicate 52428800 0)) ''https://open.spotify.com/track/abc'') =
     Inr (Some \<lparr>data = replicate 52428800 0, name = ''Track_abc.mp3'', position = 0\<rparr>,
          Some ''Track_abc'') \<and>
   ReplyAudio \<lparr>data = replicate 52428800 0, name = ''Track_abc.mp3'', position = 0\<rparr>
     ''Track_abc.mp3'' 120
     \<in> set (fst (process_spotify_link (serving (replicate 52428800 0))
                    ''https://open.spotify.com/track/abc'')) \<and>
   snd (call_download_api (serving (replicate 52428801 0)) ''https://open.spotify.com/track/abc'') =
     Inr (None, None) \<and>
   last (fst (call_download_api (serving (replicate 52428801 0))
                ''https://open.spotify.com/track/abc'')) = Error TooLarge \<and>
   filter is_reply_audio
     (fst (process_spotify_link (serving (replicate 52428801 0))
             ''https://open.spotify.com/track/abc'')) = []"
proof -
  let ?u = "''https://open.spotify.com/track/abc''"
  have s1: "step_1 (serving b) ?u =
      ([HttpPost ?u 30],
       Inr (Some (JStr ''https://cdn.example/file'', JStr ''token'', ''Track_abc'')))" for b
    unfolding step_1_unfold
    by (simp add: serving_def accepting_body_def get_field_def derive_track_name_def index_def)
  have s2: "step_2 (serving b) (JStr ''https://cdn.example/file'') (JStr ''token'') =
      ([HttpGet (JStr ''https://cdn.example/file'') (JStr ''token'') 60], Inr b)" for b
    unfolding step_2_unfold by (simp add: serving_def)
  have rt: "reply_text (serving b) StatusConnecting = Inr 7" for b
    by (simp add: serving_def)
  have l0: "length (replicate 52428800 (0 :: 8 word)) \<le> 52428800" by simp
  have l1: "52428800 < length (replicate 52428801 (0 :: 8 word))" by simp
  from size_ceiling_inclusive[OF s1 s2, of "replicate 52428800 0"] l0 rt
  have a: "snd (call_download_api (serving (replicate 52428800 0)) ?u) =
     Inr (Some \<lparr>data = replicate 52428800 0, name = ''Track_abc.mp3'', position = 0\<rparr>,
          Some ''Track_abc'') \<and>
   ReplyAudio \<lparr>data = replicate 52428800 0, name = ''Track_abc.mp3'', position = 0\<rparr>
     ''Track_abc.mp3'' 120
     \<in> set (fst (process_spotify_link (serving (replicate 52428800 0)) ?u))"
    by (simp del: replicate_eq_replicate)
  from size_ceiling_inclusive[OF s1 s2, of "replicate 52428801 0"] l1
  have b: "snd (call_download_api (serving (replicate 52428801 0)) ?u) = Inr (None, None) \<and>
   last (fst (call_download_api (serving (replicate 52428801 0)) ?u)) = Error TooLarge \<and>
   filter is_reply_audio (fst (process_spotify_link (serving (replicate 52428801 0)) ?u)) = []"
    by simp
  from a b show ?thesis by blast
qed

section \<open>Delivery\<close>

text \<open>
  C9. On every exit path of the delivery step (the send and the edit succeed, the send
  raises, the edit raises, the failure reply raises or not) the trace ends with closing
  the buffer, and closes it once. So whenever the client returned a buffer, the last
  thing \<^verbatim>\<open>process_spotify_link\<close> does is to close it.
\<close>

theorem delivery_closes_buffer:
  "(\<exists>t. fst (delivery env sm audio track_name) = t @ [Close] \<and> Close \<notin> set t) \<and>
   (\<forall>m t a n. reply_text env StatusConnecting = Inr m \<and>
        call_download_api env url = (t, Inr (Some a, n)) \<longrightarrow>
        last (fst (process_spotify_link env url)) = Close)"
proof (intro conjI allI impI)
  show "\<exists>t. fst (delivery env sm audio track_name) = t @ [Close] \<and> Close \<notin> set t"
    unfolding delivery_unfold by (simp split: sum.splits)
next
  fix m t a n
  assume h: "reply_text env StatusConnecting = Inr m \<and>
        call_download_api env url = (t, Inr (Some a, n))"
  have "\<exists>t'. fst (delivery env m a n) = t' @ [Close]"
    unfolding delivery_unfold by (simp split: sum.splits)
  then obtain t' where t': "fst (delivery env m a n) = t' @ [Close]" by blast
  show "last (fst (process_spotify_link env url)) = Close"
    unfolding process_spotify_link_unfold using h t' by simp
qed

theorem delivery_closes_buffer_witness:
  "last (fst (process_spotify_link (serving [1, 2, 3]) ''https://open.spotify.com/track/abc'')) = Close \<and>
   last (fst (process_spotify_link upload_failing ''https://open.spotify.com/track/abc'')) = Close \<and>
   last (fst (process_spotify_link edit_failing ''https://open.spotify.com/track/abc'')) = Close"
proof -
  let ?u = "''https://open.spotify.com/track/abc''"
  let ?t = "[Info (Attempting ?u), HttpPost ?u 30, Info Step1Success,
             HttpGet (JStr ''https://cdn.example/file'') (JStr ''token'') 60,
             Info (FileSize 3), Info (Downloaded ''Track_abc.mp3'')]"
  let ?a = "\<lparr>data = [1, 2, 3], name = ''Track_abc.mp3'', position = 0\<rparr>"
  have c1: "call_download_api (serving [1, 2, 3]) ?u = (?t, Inr (Some ?a, Some ''Track_abc''))"
    unfolding call_download_api_unfold step_1_unfold step_2_unfold
    by (simp add: serving_def accepting_body_def get_field_def derive_track_name_def index_def)
  have c2: "call_download_api upload_failing ?u = (?t, Inr (Some ?a, Some ''Track_abc''))"
    unfolding call_download_api_unfold step_1_unfold step_2_unfold
    by (simp add: upload_failing_def serving_def accepting_body_def get_field_def
          derive_track_name_def index_def)
  have c3: "call_download_api edit_failing ?u = (?t, Inr (Some ?a, Some ''Track_abc''))"
    unfolding call_download_api_unfold step_1_unfold step_2_unfold
    by (simp add: edit_failing_def serving_def accepting_body_def get_field_def
          derive_track_name_def index_def)
  have r1: "reply_text (serving [1, 2, 3]) StatusConnecting = Inr 7" by (simp add: serving_def)
  have r2: "reply_text upload_failing StatusConnecting = Inr 7"
    by (simp add: upload_failing_def serving_def)
  have r3: "reply_text edit_failing StatusConnecting = Inr 7"
    by (simp add: edit_failing_def serving_def)
  from delivery_closes_buffer[of "serving [1, 2, 3]" 0 ?a None ?u] r1 c1
  have a: "last (fst (process_spotify_link (serving [1, 2, 3]) ?u)) = Close" by blast
  from delivery_closes_buffer[of upload_failing 0 ?a None ?u] r2 c2
  have b: "last (fst (process_spotify_link upload_failing ?u)) = Close" by blast
  from delivery_closes_buffer[of edit_failing 0 ?a None ?u] r3 c3
  have c: "last (fst (process_spotify_link edit_failing ?u)) = Close" by blast
  from a b c show ?thesis by blast
qed

text \<open>
  C10. In \<^verbatim>\<open>process_spotify_link\<close>, an edit of the status message to the success text is
  always directly preceded by an audio send that returned without raising; and when the
  audio send raises, the trace ends with the send, the error line, the delivery-failure
  reply and closing the buffer, with no edit to the success text anywhere.
\<close>

theorem success_edit_only_after_send:
  "(\<forall>m. EditMessageText m StatusSuccess \<in> set (fst (process_spotify_link env url)) \<longrightarrow>
      (\<exists>t1 t2 audio f.
         fst (process_spotify_link env url) =
           t1 @ ReplyAudio audio f 120 # EditMessageText m StatusSuccess # t2 \<and>
         reply_audio env audio f = Inr ())) \<and>
   (\<forall>sm t audio tn e.
      reply_text env StatusConnecting = Inr sm \<and>
      call_download_api env url = (t, Inr (Some audio, tn)) \<and>
      reply_audio env audio (mp3_filename tn) = Inl e \<longrightarrow>
      fst (process_spotify_link env url) =
        ReplyText StatusConnecting # t @
          [ReplyAudio audio (mp3_filename tn) 120, Error SendFailed, ReplyText UploadFailed, Close] \<and>
      (\<forall>m. EditMessageText m StatusSuccess \<notin> set (fst (process_spotify_link env url))))"
proof (intro conjI allI impI)
  fix m
  assume ed: "EditMessageText m StatusSuccess \<in> set (fst (process_spotify_link env url))"
  obtain t r where c: "call_download_api env url = (t, r)"
    by (cases "call_download_api env url")
  have nt: "EditMessageText m StatusSuccess \<notin> set t"
    using call_download_api_plain(3)[where env = env and spotify_url = url] c by simp
  from ed obtain sm where sm: "reply_text env StatusConnecting = Inr sm"
    unfolding process_spotify_link_unfold by (cases "reply_text env StatusConnecting") auto
  from ed nt obtain audio tn where r: "r = Inr (Some audio, tn)"
    unfolding process_spotify_link_unfold sm c
    by (cases r; cases "fst (projr r)") (auto split: prod.splits)
  let ?f = "mp3_filename tn"
  have tr: "fst (process_spotify_link env url) =
      ReplyText StatusConnecting # t @ fst (delivery env sm audio tn)"
    unfolding process_spotify_link_unfold sm c r by simp
  from ed nt have ed': "EditMessageText m StatusSuccess \<in> set (fst (delivery env sm audio tn))"
    unfolding tr by simp
  then obtain ok where ok: "reply_audio env audio ?f = Inr ok"
    unfolding delivery_unfold by (cases "reply_audio env audio ?f") auto
  from ed' have msm: "m = sm"
    unfolding delivery_unfold ok by (auto split: sum.splits)
  have "\<exists>t2. fst (delivery env sm audio tn) =
      ReplyAudio audio ?f 120 # EditMessageText sm StatusSuccess # t2"
    unfolding delivery_unfold ok by (simp split: sum.splits)
  then obtain t2 where t2: "fst (delivery env sm audio tn) =
      ReplyAudio audio ?f 120 # EditMessageText sm StatusSuccess # t2" by blast
  have "fst (process_spotify_link env url) =
      (ReplyText StatusConnecting # t) @ ReplyAudio audio ?f 120 # EditMessageText m StatusSuccess # t2"
    unfolding tr t2 msm by simp
  moreover have "reply_audio env audio ?f = Inr ()" using ok by simp
  ultimately show "\<exists>t1 t2 audio f.
         fst (process_spotify_link env url) =
           t1 @ ReplyAudio audio f 120 # EditMessageText m StatusSuccess # t2 \<and>
         reply_audio env audio f = Inr ()" by blast
next
  fix sm t audio tn e
  assume h: "reply_text env StatusConnecting = Inr sm \<and>
      call_download_api env url = (t, Inr (Some audio, tn)) \<and>
      reply_audio env audio (mp3_filename tn) = Inl e"
  show tr: "fst (process_spotify_link env url) =
        ReplyText StatusConnecting # t @
          [ReplyAudio audio (mp3_filename tn) 120, Error SendFailed, ReplyText UploadFailed, Close]"
    unfolding process_spotify_link_unfold delivery_unfold using h by simp
  fix m
  have "EditMessageText m StatusSuccess \<notin> set t"
    using call_download_api_plain(3)[where env = env and spotify_url = url] h by simp
  then show "EditMessageText m StatusSuccess \<notin> set (fst (process_spotify_link env url))"
    unfolding tr by simp
qed

theorem success_edit_only_after_send_witness:
  "fst (process_spotify_link upload_failing ''https://open.spotify.com/track/abc'') =
     [ReplyText StatusConnecting,
      Info (Attempting ''https://open.spotify.com/track/abc''),
      HttpPost ''https://open.spotify.com/track/abc'' 30, Info Step1Success,
      HttpGet (JStr ''https://cdn.example/file'') (JStr ''token'') 60,
      Info (FileSize 3), Info (Downloaded ''Track_abc.mp3''),
      ReplyAudio \<lparr>data = [1, 2, 3], name = ''Track_abc.mp3'', position = 0\<rparr> ''Track_abc.mp3'' 120,
      Error SendFailed, ReplyText UploadFailed, Close] \<and>
   EditMessageText 7 StatusSuccess
     \<in> set (fst (process_spotify_link (serving [1, 2, 3]) ''https://open.spotify.com/track/abc'')) \<and>
   reply_audio (serving [1, 2, 3])
     \<lparr>data = [1, 2, 3], name = ''Track_abc.mp3'', position = 0\<rparr> ''Track_abc.mp3'' = Inr ()"
proof -
  let ?u = "''https://open.spotify.com/track/abc''"
  let ?t = "[Info (Attempting ?u), HttpPost ?u 30, Info Step1Success,
             HttpGet (JStr ''https://cdn.example/file'') (JStr ''token'') 60,
             Info (FileSize 3), Info (Downloaded ''Track_abc.mp3'')]"
  let ?a = "\<lparr>data = [1, 2, 3], name = ''Track_abc.mp3'', position = 0\<rparr>"
  have c2: "call_download_api upload_failing ?u = (?t, Inr (Some ?a, Some ''Track_abc''))"
    unfolding call_download_api_unfold step_1_unfold step_2_unfold
    by (simp add: upload_failing_def serving_def accepting_body_def get_field_def
          derive_track_name_def index_def)
  have r2: "reply_text upload_failing StatusConnecting = Inr 7"
    by (simp add: upload_failing_def serving_def)
  have f2: "reply_audio upload_failing ?a (mp3_filename (Some ''Track_abc'')) = Inl OtherException"
    by (simp add: upload_failing_def serving_def)
  from success_edit_only_after_send[of upload_failing ?u] r2 c2 f2
  have a: "fst (process_spotify_link upload_failing ?u) =
        ReplyText StatusConnecting # ?t @
          [ReplyAudio ?a (mp3_filename (Some ''Track_abc'')) 120, Error SendFailed,
           ReplyText UploadFailed, Close]"
    by blast
  have b: "EditMessageText 7 StatusSuccess \<in> set (fst (process_spotify_link (serving [1, 2, 3]) ?u))"
    unfolding process_spotify_link_unfold delivery_unfold call_download_api_unfold
      step_1_unfold step_2_unfold
    by (simp add: serving_def accepting_body_def get_field_def derive_track_name_def index_def)
  have c: "reply_audio (serving [1, 2, 3]) ?a ''Track_abc.mp3'' = Inr ()"
    by (simp add: serving_def)
  from a b c show ?thesis by (simp add: mp3_filename_def)
qed

section \<open>Messages without a link\<close>

text \<open>
  C7, as the code has it. For every message whose text is not empty and has no
  substring matching the URL grammar, the handler does exactly one thing: it sends the
  reply that explains the expected URL format.
\<close>

theorem no_link_gets_format_reply:
  assumes "txt \<noteq> []"
    and "\<not> (\<exists>pre m post. txt = pre @ m @ post \<and> url_grammar m)"
  shows "handle_message env (Some txt) =
           ([ReplyText InvalidUrlHelp],
            case reply_text env InvalidUrlHelp of
              Inl e \<Rightarrow> Inl (Raised e None) | Inr m \<Rightarrow> Inr ())"
proof -
  have "search SPOTIFY_URL_PATTERN txt = None"
    unfolding search_None lang_pattern using assms(2) by blast
  then show ?thesis
    unfolding handle_message_def tg_reply_text_def using assms(1)
    by (simp add: io_defs split: sum.splits)
qed

theorem no_link_gets_format_reply_witness:
  "handle_message (serving []) (Some ''hello there'') = ([ReplyText InvalidUrlHelp], Inr ())"
proof -
  have n: "search SPOTIFY_URL_PATTERN ''hello there'' = None"
    by (simp add: SPOTIFY_URL_PATTERN_def alnum_def match_at_def ends.simps(6))
  have 1: "''hello there'' \<noteq> []" by simp
  have 2: "\<not> (\<exists>pre m post. ''hello there'' = pre @ m @ post \<and> url_grammar m)"
    using n unfolding search_None lang_pattern by blast
  from no_link_gets_format_reply[OF 1 2, of "serving []"] show ?thesis
    by (simp add: serving_def)
qed

text \<open>
  The claim as worded covers every text without a link. The handler returns at once
  on an empty text and sends nothing.
\<close>

theorem empty_text_gets_no_reply:
  "handle_message (serving []) (Some []) = ([], Inr ())"
  by (simp add: handle_message_def ret_def)

text \<open>
  The same holds whatever the outside world is, and for a message without any text.
\<close>

lemma empty_text_returns_silently:
  "handle_message env None = ([], Inr ()) \<and> handle_message env (Some []) = ([], Inr ())"
  by (simp add: handle_message_def ret_def)

end
